theory Spec2Isabelle
  imports Main
begin

section \<open>The extension checker of paas-rds-broker (scripts/check_pg_extensions.py)\<close>

text \<open>
  The script toggles PostgreSQL extensions of a service instance through an HTTP API and
  polls the instance's last operation after every change. Its bearer token is read from
  standard input, where an outside process writes a fresh token every few minutes.

  The embedding threads one \<open>world\<close> through every function: the module's global
  \<open>_auth_header\<close>, standard input, the service the requests go to, and the log of
  everything the script did to the outside (reads, readiness checks, prints, sleeps,
  requests). Strings are byte strings; tokens and extension names are ASCII.
\<close>

subsection \<open>Strings\<close>

text \<open>\<open>str.isspace\<close> on ASCII: tab, LF, VT, FF, CR, the separators 0x1C..0x1F and space.\<close>

definition isspace :: "char \<Rightarrow> bool" where
  "isspace c \<longleftrightarrow>
     c \<in> set [CHR 0x09, CHR 0x0A, CHR 0x0B, CHR 0x0C, CHR 0x0D,
              CHR 0x1C, CHR 0x1D, CHR 0x1E, CHR 0x1F, CHR 0x20]"

text \<open>\<open>str.strip()\<close>: drop the whitespace at both ends.\<close>

definition strip :: "string \<Rightarrow> string" where
  "strip s = rev (dropWhile isspace (rev (dropWhile isspace s)))"

definition newline :: string where
  "newline = [CHR 0x0A]"

subsection \<open>JSON values, requests and responses\<close>

text \<open>
  A decoded JSON value. \<open>JOther\<close> stands for the values the script never looks into
  (numbers and null). An object is the association list of its members, keys distinct.
\<close>

datatype json =
    JStr string
  | JBool bool
  | JArr "json list"
  | JObj "(string \<times> json) list"
  | JOther

datatype exn =
    StopIteration
  | ConnectionError
  | HTTPError nat
  | JSONDecodeError
  | KeyError string
  | TypeError
  | SystemExit nat

text \<open>
  What a call does: it returns a value, raises an exception (\<open>sys.exit(n)\<close> raises
  \<open>SystemExit n\<close>), or never comes back because it waits for input that never arrives.
\<close>

datatype 'a outcome = Return 'a | Raise exn | Hangs

text \<open>\<open>d[k]\<close> on a decoded value: only an object can be subscripted with a string.\<close>

fun subscript :: "json \<Rightarrow> string \<Rightarrow> exn + json" where
  "subscript (JObj kvs) k = (case map_of kvs k of None \<Rightarrow> Inl (KeyError k) | Some v \<Rightarrow> Inr v)"
| "subscript (JStr s) k = Inl TypeError"
| "subscript (JBool b) k = Inl TypeError"
| "subscript (JArr vs) k = Inl TypeError"
| "subscript JOther k = Inl TypeError"

type_synonym header = "(string \<times> string) list"

datatype meth = GET | PATCH

text \<open>
  A request as handed to \<open>requests\<close>: the URL is \<open>urljoin(url_base, url_path)\<close>, kept as
  its two arguments.
\<close>

record request =
  meth :: meth
  url_base :: string
  url_path :: string
  headers :: header
  json_body :: "json option"

text \<open>
  What comes back: no response at all (\<open>requests\<close> raises a connection error), or a
  status code and a body, \<open>None\<close> when the body is not JSON.
\<close>

datatype response = NoResponse | Response nat "json option"

text \<open>\<open>Response.raise_for_status()\<close> raises for the codes 400..599.\<close>

definition is_error_status :: "nat \<Rightarrow> bool" where
  "is_error_status st \<longleftrightarrow> 400 \<le> st \<and> st < 600"

subsection \<open>Standard input\<close>

text \<open>
  Standard input at the granularity of lines. \<open>pending\<close> are the lines that have arrived
  and are unread, oldest first. \<open>later\<close> is the feeder's schedule: one batch of lines
  per step of time (a sleep or an HTTP exchange), possibly empty. \<open>tail\<close> says what
  happens once the schedule is over: the feeder has closed the stream, or it stays open
  and silent.
\<close>

datatype eos = Eof | Silent

record stream =
  pending :: "string list"
  later :: "string list list"
  tail :: eos

text \<open>
  \<open>select([f], [], [], 0)[0]\<close>: the stream is readable without waiting when a line is
  pending or when it is at end of file.
\<close>

definition readable :: "stream \<Rightarrow> bool" where
  "readable s \<longleftrightarrow> pending s \<noteq> [] \<or> (later s = [] \<and> tail s = Eof)"

text \<open>One step of time passes: the next batch of the schedule arrives.\<close>

definition elapse :: "stream \<Rightarrow> stream" where
  "elapse s = (case later s of [] \<Rightarrow> s
               | b # bs \<Rightarrow> s\<lparr>pending := pending s @ b, later := bs\<rparr>)"

text \<open>
  \<open>next(f)\<close>: a line (with the flag whether the call had to wait for it), end of
  file (\<open>StopIteration\<close>), or a wait without end.
\<close>

datatype read_result = Line string bool | AtEof | Never

fun await :: "string list list \<Rightarrow> eos \<Rightarrow> read_result \<times> stream" where
  "await [] Eof = (AtEof, \<lparr>pending = [], later = [], tail = Eof\<rparr>)"
| "await [] Silent = (Never, \<lparr>pending = [], later = [], tail = Silent\<rparr>)"
| "await ([] # bs) t = await bs t"
| "await ((l # ls) # bs) t = (Line l True, \<lparr>pending = ls, later = bs, tail = t\<rparr>)"

definition next_line :: "stream \<Rightarrow> read_result \<times> stream" where
  "next_line s = (case pending s of
                    l # ls \<Rightarrow> (Line l False, s\<lparr>pending := ls\<rparr>)
                  | [] \<Rightarrow> await (later s) (tail s))"

definition unread :: "stream \<Rightarrow> nat" where
  "unread s = length (pending s) + length (later s) + length (concat (later s))"

subsection \<open>The world\<close>

datatype fragment = Text string | Str json | Repr string

datatype event =
    Select bool
  | Read string bool
  | Print "fragment list"
  | Sleep nat
  | Http request response

text \<open>
  \<open>server\<close> is the service as the run meets it: the response to the next request, to
  the one after it, and so on.
\<close>

record world =
  auth_header :: "header option"
  stdin :: stream
  server :: "nat \<Rightarrow> response"
  trace :: "event list"

definition emit :: "event \<Rightarrow> world \<Rightarrow> world" where
  "emit e w = w\<lparr>trace := trace w @ [e]\<rparr>"

subsection \<open>\<open>_get_auth_header\<close>\<close>

text \<open>
  The \<open>while True\<close> loop of \<open>_get_auth_header\<close>: read a line and strip it; a non-empty
  line is announced and becomes the header; leave the loop as soon as there is a header.
\<close>

function acquire :: "world \<Rightarrow> header outcome \<times> world" where
  "acquire w =
     (case next_line (stdin w) of
        (AtEof, s') \<Rightarrow> (Raise StopIteration, w\<lparr>stdin := s'\<rparr>)
      | (Never, s') \<Rightarrow> (Hangs, w\<lparr>stdin := s'\<rparr>)
      | (Line l b, s') \<Rightarrow>
          (let w1 = emit (Read l b) (w\<lparr>stdin := s'\<rparr>);
               line = strip l;
               w2 = (if line \<noteq> []
                     then (emit (Print [Text ''<new auth token>'']) w1)
                            \<lparr>auth_header := Some [(''Authorization'', line)]\<rparr>
                     else w1)
           in case auth_header w2 of
                Some h \<Rightarrow> (Return h, w2)
              | None \<Rightarrow> acquire w2))"
  by pat_completeness auto

lemma await_unread:
  "await bs t = (Line l b, s') \<Longrightarrow> unread s' < length bs + length (concat bs)"
  by (induction bs t rule: await.induct) (auto simp: unread_def)

lemma next_line_unread: "next_line s = (Line l b, s') \<Longrightarrow> unread s' < unread s"
  by (auto simp: next_line_def unread_def split: list.splits dest: await_unread)

termination acquire
  by (relation "measure (\<lambda>w. unread (stdin w))")
     (auto simp: emit_def dest!: next_line_unread [OF sym] split: if_splits)

declare acquire.simps [simp del]

text \<open>
  \<open>_get_auth_header\<close>: \<open>or\<close> evaluates \<open>select\<close> only when there is a header already.
\<close>

definition get_auth_header :: "world \<Rightarrow> header outcome \<times> world" where
  "get_auth_header w =
     (case auth_header w of
        None \<Rightarrow> acquire w
      | Some h \<Rightarrow>
          (let r = readable (stdin w); w1 = emit (Select r) w
           in if r then acquire w1 else (Return h, w1)))"


subsection \<open>Requests\<close>

text \<open>
  \<open>requests.get\<close> and \<open>requests.patch\<close>: the request goes out, the service answers with
  its next response, and a step of time has passed.
\<close>

definition send :: "request \<Rightarrow> world \<Rightarrow> response \<times> world" where
  "send rq w =
     (let rs = server w 0
      in (rs, (emit (Http rq rs) w)\<lparr>server := (\<lambda>i. server w (Suc i)),
                                    stdin := elapse (stdin w)\<rparr>))"

definition instance_path :: "string \<Rightarrow> string" where
  "instance_path service_guid = ''/v3/service_instances/'' @ service_guid"

text \<open>\<open>resp.json()["last_operation"][k]\<close>\<close>

definition last_operation :: "json option \<Rightarrow> string \<Rightarrow> exn + json" where
  "last_operation body k =
     (case body of
        None \<Rightarrow> Inl JSONDecodeError
      | Some j \<Rightarrow> (case subscript j ''last_operation'' of
                    Inl e \<Rightarrow> Inl e
                  | Inr lo \<Rightarrow> subscript lo k))"

subsection \<open>\<open>_wait_for_success\<close>\<close>

text \<open>
  The polling loop has no bound of its own. The first argument bounds the number of
  polls; \<open>None\<close> says that the bound was reached with the loop still running.
\<close>

fun wait_for_success :: "nat \<Rightarrow> string \<Rightarrow> string \<Rightarrow> world \<Rightarrow> (unit outcome \<times> world) option" where
  "wait_for_success 0 api_base_url service_guid w = None"
| "wait_for_success (Suc n) api_base_url service_guid w =
     (let w1 = (emit (Sleep 10) w)\<lparr>stdin := elapse (stdin w)\<rparr>
      in case get_auth_header w1 of
           (Raise e, w2) \<Rightarrow> Some (Raise e, w2)
         | (Hangs, w2) \<Rightarrow> Some (Hangs, w2)
         | (Return h, w2) \<Rightarrow>
             (case send \<lparr>meth = GET, url_base = api_base_url,
                          url_path = instance_path service_guid,
                          headers = h, json_body = None\<rparr> w2 of
                (NoResponse, w3) \<Rightarrow> Some (Raise ConnectionError, w3)
              | (Response st body, w3) \<Rightarrow>
                  if is_error_status st then Some (Raise (HTTPError st), w3)
                  else (case last_operation body ''state'' of
                          Inl e \<Rightarrow> Some (Raise e, w3)
                        | Inr last_operation_state \<Rightarrow>
                            if last_operation_state = JStr ''succeeded''
                            then Some (Return (),
                                       emit (Print [Text ''succeeded'', Text newline]) w3)
                            else if last_operation_state = JStr ''failed''
                            then (case last_operation body ''description'' of
                                    Inl e \<Rightarrow> Some (Raise e, w3)
                                  | Inr d \<Rightarrow>
                                      Some (Raise (SystemExit 8),
                                            emit (Print [Text ''description: '', Str d,
                                                         Text newline]) w3))
                            else wait_for_success n api_base_url service_guid
                                   (emit (Print [Text ''.'']) w3))))"

subsection \<open>\<open>test_extensions\<close>\<close>

text \<open>
  The two inner loops of \<open>test_extensions\<close> have the same body up to the word printed
  and the key of the parameter; \<open>toggle_each\<close> is that body, over the extensions in the
  order given.
\<close>

datatype action = Enable | Disable

fun announce :: "action \<Rightarrow> string" where
  "announce Enable = ''enabling extension ''"
| "announce Disable = ''disabling extension ''"

fun parameter_key :: "action \<Rightarrow> string" where
  "parameter_key Enable = ''enable_extensions''"
| "parameter_key Disable = ''disable_extensions''"

definition toggle_body :: "action \<Rightarrow> string \<Rightarrow> json" where
  "toggle_body a extension =
     JObj [(''parameters'',
            JObj [(parameter_key a, JArr [JStr extension]), (''reboot'', JBool True)])]"

definition toggle_request :: "action \<Rightarrow> string \<Rightarrow> string \<Rightarrow> string \<Rightarrow> header \<Rightarrow> request" where
  "toggle_request a api_base_url service_guid extension h =
     \<lparr>meth = PATCH, url_base = api_base_url, url_path = instance_path service_guid,
      headers = h, json_body = Some (toggle_body a extension)\<rparr>"

fun toggle_each ::
  "action \<Rightarrow> nat \<Rightarrow> string \<Rightarrow> string \<Rightarrow> string list \<Rightarrow> world \<Rightarrow> (unit outcome \<times> world) option" where
  "toggle_each a n api_base_url service_guid [] w = Some (Return (), w)"
| "toggle_each a n api_base_url service_guid (extension # rest) w =
     (let w1 = emit (Print [Text (announce a), Repr extension]) w
      in case get_auth_header w1 of
           (Raise e, w2) \<Rightarrow> Some (Raise e, w2)
         | (Hangs, w2) \<Rightarrow> Some (Hangs, w2)
         | (Return h, w2) \<Rightarrow>
             (case send (toggle_request a api_base_url service_guid extension h) w2 of
                (NoResponse, w3) \<Rightarrow> Some (Raise ConnectionError, w3)
              | (Response st body, w3) \<Rightarrow>
                  if is_error_status st then Some (Raise (HTTPError st), w3)
                  else (case wait_for_success n api_base_url service_guid w3 of
                          None \<Rightarrow> None
                        | Some (Return u, w4) \<Rightarrow>
                            toggle_each a n api_base_url service_guid rest w4
                        | Some (Raise e, w4) \<Rightarrow> Some (Raise e, w4)
                        | Some (Hangs, w4) \<Rightarrow> Some (Hangs, w4))))"

fun test_extensions ::
  "nat \<Rightarrow> string \<Rightarrow> string \<Rightarrow> string list list \<Rightarrow> world \<Rightarrow> (unit outcome \<times> world) option" where
  "test_extensions n api_base_url service_guid [] w = Some (Return (), w)"
| "test_extensions n api_base_url service_guid (extension_set # rest) w =
     (case toggle_each Enable n api_base_url service_guid extension_set w of
        None \<Rightarrow> None
      | Some (Raise e, w1) \<Rightarrow> Some (Raise e, w1)
      | Some (Hangs, w1) \<Rightarrow> Some (Hangs, w1)
      | Some (Return u, w1) \<Rightarrow>
          (case toggle_each Disable n api_base_url service_guid (rev extension_set) w1 of
             None \<Rightarrow> None
           | Some (Raise e, w2) \<Rightarrow> Some (Raise e, w2)
           | Some (Hangs, w2) \<Rightarrow> Some (Hangs, w2)
           | Some (Return u, w2) \<Rightarrow>
               test_extensions n api_base_url service_guid rest w2))"

text \<open>
  The exit status of the interpreter: 0 when the script runs to its end, the argument
  of \<open>sys.exit\<close> when that was called, 1 for any other exception that nothing catches;
  none while the process hangs.
\<close>

fun exit_status :: "unit outcome \<Rightarrow> nat option" where
  "exit_status (Return u) = Some 0"
| "exit_status (Raise (SystemExit c)) = Some c"
| "exit_status (Raise e) = Some 1"
| "exit_status Hangs = None"


section \<open>Observations of a run\<close>

text \<open>All lines of a stream in the order in which \<open>next\<close> would deliver them.\<close>

definition all_lines :: "stream \<Rightarrow> string list" where
  "all_lines s = pending s @ concat (later s)"

text \<open>The events a call added to the log.\<close>

definition since :: "world \<Rightarrow> world \<Rightarrow> event list" where
  "since w w' = drop (length (trace w)) (trace w')"

text \<open>The lines taken from standard input, and those among them the script waited for.\<close>

fun lines_read :: "event list \<Rightarrow> string list" where
  "lines_read [] = []"
| "lines_read (Read l b # es) = l # lines_read es"
| "lines_read (e # es) = lines_read es"


text \<open>
  The header in force after a stretch of the log: every non-blank line read replaces it.
\<close>

fun current_header :: "header option \<Rightarrow> event list \<Rightarrow> header option" where
  "current_header c [] = c"
| "current_header c (Read l b # es) =
     current_header (if strip l \<noteq> [] then Some [(''Authorization'', strip l)] else c) es"
| "current_header c (e # es) = current_header c es"

text \<open>The events of \<open>_get_auth_header\<close>: readiness checks, reads and the notice of a new token.\<close>

fun credential_event :: "event \<Rightarrow> bool" where
  "credential_event (Select r) = True"
| "credential_event (Read l b) = True"
| "credential_event (Print fs) = (fs = [Text ''<new auth token>''])"
| "credential_event e = False"

text \<open>
  A credential can be had: the stream never ends, and a header is set already or a
  non-blank line is on its way.
\<close>

definition credential_available :: "world \<Rightarrow> bool" where
  "credential_available w \<longleftrightarrow>
     tail (stdin w) = Silent \<and>
     (auth_header w \<noteq> None \<or> (\<exists>l \<in> set (all_lines (stdin w)). strip l \<noteq> []))"

text \<open>
  What a poll learns from a response: the member \<open>k\<close> of \<open>last_operation\<close>, when the
  response has a status that \<open>raise_for_status\<close> accepts and a body that has the member.
\<close>

definition polled :: "string \<Rightarrow> response \<Rightarrow> json option" where
  "polled k rs =
     (case rs of
        NoResponse \<Rightarrow> None
      | Response st body \<Rightarrow>
          if is_error_status st then None
          else (case last_operation body k of Inl e \<Rightarrow> None | Inr v \<Rightarrow> Some v))"

text \<open>
  \<open>checked f es\<close>: the last thing done in \<open>es\<close> was to consult the credential source
  (\<open>f\<close> says whether that held before \<open>es\<close>). \<open>fresh c f es\<close>: every request in \<open>es\<close> was
  sent right after the credential source had been consulted and carries the header in
  force at that moment (\<open>c\<close> is the header in force before \<open>es\<close>).
\<close>

fun checked :: "bool \<Rightarrow> event list \<Rightarrow> bool" where
  "checked f [] = f"
| "checked f (Select r # es) = checked True es"
| "checked f (Read l b # es) = checked True es"
| "checked f (Print fs # es) = checked (f \<and> fs = [Text ''<new auth token>'']) es"
| "checked f (Sleep k # es) = checked False es"
| "checked f (Http rq rs # es) = checked False es"

fun fresh :: "header option \<Rightarrow> bool \<Rightarrow> event list \<Rightarrow> bool" where
  "fresh c f [] = True"
| "fresh c f (Http rq rs # es) = (f \<and> c = Some (headers rq) \<and> fresh c False es)"
| "fresh c f (e # es) = fresh (current_header c [e]) (checked f [e]) es"

text \<open>The requests of a stretch of the log, in the order sent.\<close>

fun requests :: "event list \<Rightarrow> request list" where
  "requests [] = []"
| "requests (Http rq rs # es) = rq # requests es"
| "requests (e # es) = requests es"

text \<open>The states that end the polling loop.\<close>

definition terminal :: "json option \<Rightarrow> bool" where
  "terminal v \<longleftrightarrow> v = Some (JStr ''succeeded'') \<or> v = Some (JStr ''failed'')"






text \<open>
  A service on which every operation converges to \<open>succeeded\<close>: \<open>served ds srv\<close> says
  that the service accepts one change after the other, as many as \<open>ds\<close> is long, and
  that the polls after the \<open>i\<close>-th change read \<open>ds ! i\<close> states that are not terminal and
  then \<open>succeeded\<close>.
\<close>

fun accepted :: "response \<Rightarrow> bool" where
  "accepted NoResponse = False"
| "accepted (Response st body) = (\<not> is_error_status st)"


subsection \<open>The bodies of the loops\<close>

text \<open>
  One round of the loop of \<open>_wait_for_success\<close>: the loop goes on (\<open>Inl\<close>, with the
  world it goes on in) or the call ends (\<open>Inr\<close>).
\<close>

definition poll :: "string \<Rightarrow> string \<Rightarrow> world \<Rightarrow> world + unit outcome \<times> world" where
  "poll api_base_url service_guid w =
     (let w1 = (emit (Sleep 10) w)\<lparr>stdin := elapse (stdin w)\<rparr>
      in case get_auth_header w1 of
           (Raise e, w2) \<Rightarrow> Inr (Raise e, w2)
         | (Hangs, w2) \<Rightarrow> Inr (Hangs, w2)
         | (Return h, w2) \<Rightarrow>
             (case send \<lparr>meth = GET, url_base = api_base_url,
                          url_path = instance_path service_guid,
                          headers = h, json_body = None\<rparr> w2 of
                (NoResponse, w3) \<Rightarrow> Inr (Raise ConnectionError, w3)
              | (Response st body, w3) \<Rightarrow>
                  if is_error_status st then Inr (Raise (HTTPError st), w3)
                  else (case last_operation body ''state'' of
                          Inl e \<Rightarrow> Inr (Raise e, w3)
                        | Inr last_operation_state \<Rightarrow>
                            if last_operation_state = JStr ''succeeded''
                            then Inr (Return (),
                                      emit (Print [Text ''succeeded'', Text newline]) w3)
                            else if last_operation_state = JStr ''failed''
                            then (case last_operation body ''description'' of
                                    Inl e \<Rightarrow> Inr (Raise e, w3)
                                  | Inr d \<Rightarrow>
                                      Inr (Raise (SystemExit 8),
                                           emit (Print [Text ''description: '', Str d,
                                                        Text newline]) w3))
                            else Inl (emit (Print [Text ''.'']) w3))))"

text \<open>
  The head of a round of the loops of \<open>test_extensions\<close>, up to the call of
  \<open>_wait_for_success\<close>: the request was accepted (\<open>Inl\<close>) or the call ends (\<open>Inr\<close>).
\<close>

definition toggle :: "action \<Rightarrow> string \<Rightarrow> string \<Rightarrow> string \<Rightarrow> world \<Rightarrow> world + unit outcome \<times> world" where
  "toggle a api_base_url service_guid extension w =
     (let w1 = emit (Print [Text (announce a), Repr extension]) w
      in case get_auth_header w1 of
           (Raise e, w2) \<Rightarrow> Inr (Raise e, w2)
         | (Hangs, w2) \<Rightarrow> Inr (Hangs, w2)
         | (Return h, w2) \<Rightarrow>
             (case send (toggle_request a api_base_url service_guid extension h) w2 of
                (NoResponse, w3) \<Rightarrow> Inr (Raise ConnectionError, w3)
              | (Response st body, w3) \<Rightarrow>
                  if is_error_status st then Inr (Raise (HTTPError st), w3) else Inl w3))"

subsection \<open>Properties kept by every step\<close>

text \<open>
  \<open>steps_keep I T\<close>: every step the script takes leads from a world with \<open>I\<close> to a
  world with \<open>I\<close>, a poll answered \<open>failed\<close> with a description apart, whose report
  leads to a world with \<open>T\<close>. The steps are a print, the sleep, a call of
  \<open>_get_auth_header\<close>, and a request sent with the header that call returned.
\<close>

definition steps_keep :: "(world \<Rightarrow> bool) \<Rightarrow> (world \<Rightarrow> bool) \<Rightarrow> bool" where
  "steps_keep I T \<longleftrightarrow>
     (\<forall>w fs. I w \<longrightarrow> I (emit (Print fs) w)) \<and>
     (\<forall>w. I w \<longrightarrow> I ((emit (Sleep 10) w)\<lparr>stdin := elapse (stdin w)\<rparr>)) \<and>
     (\<forall>w. I w \<longrightarrow> I (snd (get_auth_header w))) \<and>
     (\<forall>w h w2 rq. I w \<longrightarrow> get_auth_header w = (Return h, w2) \<longrightarrow> headers rq = h \<longrightarrow>
        \<not> (meth rq = GET \<and> polled ''state'' (server w 0) = Some (JStr ''failed'') \<and>
           polled ''description'' (server w 0) \<noteq> None) \<longrightarrow>
        I (snd (send rq w2))) \<and>
     (\<forall>w h w2 rq d. I w \<longrightarrow> get_auth_header w = (Return h, w2) \<longrightarrow> headers rq = h \<longrightarrow>
        meth rq = GET \<longrightarrow> polled ''state'' (server w 0) = Some (JStr ''failed'') \<longrightarrow>
        polled ''description'' (server w 0) = Some d \<longrightarrow>
        T (emit (Print [Text ''description: '', Str d, Text newline]) (snd (send rq w2))))"

text \<open>Properties of the log since a world \<open>w0\<close>, for use with \<open>steps_keep\<close>.\<close>

definition fresh_so_far :: "world \<Rightarrow> world \<Rightarrow> bool" where
  "fresh_so_far w0 w \<longleftrightarrow>
     (\<exists>es. trace w = trace w0 @ es \<and> fresh (auth_header w0) False es \<and>
           auth_header w = current_header (auth_header w0) es)"



subsection \<open>Sample worlds\<close>

definition line1 :: string where
  "line1 = ''bearer t1'' @ newline"

definition line2 :: string where
  "line2 = ''bearer t2'' @ newline"

definition silent_server :: "nat \<Rightarrow> response" where
  "silent_server k = NoResponse"



definition in_progress :: response where
  "in_progress =
     Response 200 (Some (JObj [(''last_operation'', JObj [(''state'', JStr ''in progress'')])]))"


definition succeeded_response :: response where
  "succeeded_response =
     Response 200 (Some (JObj [(''last_operation'', JObj [(''state'', JStr ''succeeded'')])]))"

definition failed_response :: response where
  "failed_response =
     Response 200 (Some (JObj [(''last_operation'',
       JObj [(''state'', JStr ''failed''), (''description'', JStr ''dependency missing'')])]))"

definition c2_world :: world where
  "c2_world =
     \<lparr>auth_header = Some [(''Authorization'', ''bearer t0'')],
      stdin = \<lparr>pending = [], later = [], tail = Silent\<rparr>,
      server = (\<lambda>k. if k = 0 then in_progress else succeeded_response), trace = []\<rparr>"

definition accepted_response :: response where
  "accepted_response = Response 202 None"


definition c7_world :: world where
  "c7_world =
     \<lparr>auth_header = None,
      stdin = \<lparr>pending = [newline], later = [], tail = Eof\<rparr>,
      server = silent_server, trace = []\<rparr>"

text \<open>
  A token arrives while the first request is under way; the service accepts that request
  and is unreachable afterwards.
\<close>

definition c8_world :: world where
  "c8_world =
     \<lparr>auth_header = Some [(''Authorization'', ''bearer t0'')],
      stdin = \<lparr>pending = [], later = [[line1]], tail = Silent\<rparr>,
      server = (\<lambda>k. if k = 0 then accepted_response else NoResponse), trace = []\<rparr>"



section \<open>The credential source\<close>

subsection \<open>One call of \<open>_get_auth_header\<close>\<close>

lemma acquire_line:
  assumes "pending (stdin w) = l # ls"
  shows "acquire w =
     (if strip l \<noteq> []
      then (Return [(''Authorization'', strip l)],
            w\<lparr>auth_header := Some [(''Authorization'', strip l)],
              stdin := (stdin w)\<lparr>pending := ls\<rparr>,
              trace := trace w @ [Read l False, Print [Text ''<new auth token>'']]\<rparr>)
      else (case auth_header w of
              Some h \<Rightarrow> (Return h, w\<lparr>stdin := (stdin w)\<lparr>pending := ls\<rparr>,
                                     trace := trace w @ [Read l False]\<rparr>)
            | None \<Rightarrow> acquire (w\<lparr>stdin := (stdin w)\<lparr>pending := ls\<rparr>,
                                 trace := trace w @ [Read l False]\<rparr>)))"
  using assms
  by (subst acquire.simps) (simp add: next_line_def emit_def Let_def split: option.splits)

lemma acquire_eof:
  assumes "pending (stdin w) = []" "later (stdin w) = []" "tail (stdin w) = Eof"
  shows "acquire w = (Raise StopIteration, w)"
proof -
  have "stdin w = \<lparr>pending = [], later = [], tail = Eof\<rparr>" using assms by simp
  then show ?thesis using assms
    by (subst acquire.simps) (simp add: next_line_def)
qed

lemma get_auth_header_established:
  assumes "auth_header w = Some h"
  shows "get_auth_header w =
     (case pending (stdin w) of
        [] \<Rightarrow> if later (stdin w) = [] \<and> tail (stdin w) = Eof
              then (Raise StopIteration, emit (Select True) w)
              else (Return h, emit (Select False) w)
      | l # ls \<Rightarrow>
          if strip l \<noteq> []
          then (Return [(''Authorization'', strip l)],
                w\<lparr>auth_header := Some [(''Authorization'', strip l)],
                  stdin := (stdin w)\<lparr>pending := ls\<rparr>,
                  trace := trace w @ [Select True, Read l False,
                                      Print [Text ''<new auth token>'']]\<rparr>)
          else (Return h, w\<lparr>stdin := (stdin w)\<lparr>pending := ls\<rparr>,
                            trace := trace w @ [Select True, Read l False]\<rparr>))"
proof (cases "pending (stdin w)")
  case Nil
  then show ?thesis using assms
    by (simp add: get_auth_header_def readable_def Let_def acquire_eof emit_def)
next
  case (Cons l ls)
  then show ?thesis using assms
    by (simp add: get_auth_header_def readable_def Let_def acquire_line emit_def)
qed

lemma await_Line: "await bs t = (Line l b, s') \<Longrightarrow> concat bs = l # all_lines s' \<and> tail s' = t \<and> b"
  by (induction bs t rule: await.induct) (auto simp: all_lines_def)

lemma await_AtEof:
  "await bs t = (AtEof, s') \<Longrightarrow> concat bs = [] \<and> t = Eof \<and> tail s' = Eof \<and> all_lines s' = []"
  by (induction bs t rule: await.induct) (auto simp: all_lines_def)

lemma await_Never:
  "await bs t = (Never, s') \<Longrightarrow>
     concat bs = [] \<and> t = Silent \<and> tail s' = Silent \<and> all_lines s' = []"
  by (induction bs t rule: await.induct) (auto simp: all_lines_def)

lemma next_line_Line:
  "next_line s = (Line l b, s') \<Longrightarrow> all_lines s = l # all_lines s' \<and> tail s' = tail s"
  by (auto simp: next_line_def all_lines_def split: list.splits dest: await_Line)

lemma next_line_AtEof:
  "next_line s = (AtEof, s') \<Longrightarrow>
     all_lines s = [] \<and> tail s = Eof \<and> tail s' = Eof \<and> all_lines s' = []"
  by (auto simp: next_line_def all_lines_def split: list.splits dest: await_AtEof)

lemma next_line_Never:
  "next_line s = (Never, s') \<Longrightarrow>
     all_lines s = [] \<and> tail s = Silent \<and> tail s' = Silent \<and> all_lines s' = []"
  by (auto simp: next_line_def all_lines_def split: list.splits dest: await_Never)

lemma current_header_append:
  "current_header c (es @ es') = current_header (current_header c es) es'"
  by (induction c es rule: current_header.induct) auto

lemma lines_read_append: "lines_read (es @ es') = lines_read es @ lines_read es'"
  by (induction es rule: lines_read.induct) auto

lemma acquire_frame:
  "\<exists>es. trace (snd (acquire w)) = trace w @ es \<and>
        (\<forall>e \<in> set es. credential_event e) \<and>
        server (snd (acquire w)) = server w \<and>
        tail (stdin (snd (acquire w))) = tail (stdin w) \<and>
        all_lines (stdin w) = lines_read es @ all_lines (stdin (snd (acquire w))) \<and>
        auth_header (snd (acquire w)) = current_header (auth_header w) es \<and>
        (\<forall>h. fst (acquire w) = Return h \<longrightarrow>
               auth_header (snd (acquire w)) = Some h \<and> lines_read es \<noteq> []) \<and>
        (\<forall>e. fst (acquire w) = Raise e \<longrightarrow> e = StopIteration)"
  (is "\<exists>es. ?P w es")
proof (induction w rule: acquire.induct)
  case (1 w)
  obtain r s' where nl: "next_line (stdin w) = (r, s')" by (cases "next_line (stdin w)")
  show ?case
  proof (cases r)
    case (Line l b)
    note L = next_line_Line [OF nl [unfolded Line]]
    define w2 where "w2 = (if strip l \<noteq> []
               then (emit (Print [Text ''<new auth token>'']) (emit (Read l b) (w\<lparr>stdin := s'\<rparr>)))
                      \<lparr>auth_header := Some [(''Authorization'', strip l)]\<rparr>
               else emit (Read l b) (w\<lparr>stdin := s'\<rparr>))"
    define es0 where "es0 = (if strip l \<noteq> [] then [Read l b, Print [Text ''<new auth token>'']]
                             else [Read l b])"
    have pre: "trace w2 = trace w @ es0" "\<forall>e \<in> set es0. credential_event e"
      "server w2 = server w" "stdin w2 = s'" "lines_read es0 = [l]"
      "auth_header w2 = current_header (auth_header w) es0"
      by (simp_all add: emit_def es0_def w2_def)
    show ?thesis
    proof (cases "auth_header w2")
      case None
      have eq: "acquire w = acquire w2"
        using nl Line None unfolding w2_def by (subst acquire.simps) (simp add: Let_def)
      from 1 [OF nl [symmetric] Line refl refl refl None [unfolded w2_def]]
      obtain es where es: "?P w2 es" unfolding w2_def by blast
      have "?P w (es0 @ es)"
        unfolding eq using es pre L
        by (auto simp: current_header_append lines_read_append simp del: current_header.simps)
      then show ?thesis by blast
    next
      case (Some h)
      have eq: "acquire w = (Return h, w2)"
        using nl Line Some unfolding w2_def by (subst acquire.simps) (simp add: Let_def)
      have "?P w es0"
        unfolding eq using pre L Some by simp
      then show ?thesis by blast
    qed
  next
    case AtEof
    have eq: "acquire w = (Raise StopIteration, w\<lparr>stdin := s'\<rparr>)"
      using nl AtEof by (subst acquire.simps) simp
    have "?P w []" using next_line_AtEof [OF nl [unfolded AtEof]] unfolding eq
      by simp
    then show ?thesis by blast
  next
    case Never
    have eq: "acquire w = (Hangs, w\<lparr>stdin := s'\<rparr>)"
      using nl Never by (subst acquire.simps) simp
    have "?P w []" using next_line_Never [OF nl [unfolded Never]] unfolding eq
      by simp
    then show ?thesis by blast
  qed
qed


lemma acquire_trace: "\<exists>es. trace (snd (acquire w)) = trace w @ es"
  using acquire_frame [of w] by blast

lemma since_append [simp]: "trace w' = trace w @ es \<Longrightarrow> since w w' = es"
  by (simp add: since_def)

lemma acquire_initial:
  assumes "auth_header w = None"
  shows "case find (\<lambda>l. strip l \<noteq> []) (all_lines (stdin w)) of
           Some l \<Rightarrow>
             fst (acquire w) = Return [(''Authorization'', strip l)] \<and>
             auth_header (snd (acquire w)) = Some [(''Authorization'', strip l)] \<and>
             lines_read (since w (snd (acquire w))) =
               takeWhile (\<lambda>l. strip l = []) (all_lines (stdin w)) @ [l]
         | None \<Rightarrow>
             fst (acquire w) = (case tail (stdin w) of Eof \<Rightarrow> Raise StopIteration | Silent \<Rightarrow> Hangs) \<and>
             auth_header (snd (acquire w)) = None \<and>
             lines_read (since w (snd (acquire w))) = all_lines (stdin w)"
  using assms
proof (induction w rule: acquire.induct)
  case (1 w)
  obtain r s' where nl: "next_line (stdin w) = (r, s')" by (cases "next_line (stdin w)")
  show ?case
  proof (cases r)
    case (Line l b)
    note L = next_line_Line [OF nl [unfolded Line]]
    show ?thesis
    proof (cases "strip l = []")
      case True
      let ?w2 = "emit (Read l b) (w\<lparr>stdin := s'\<rparr>)"
      have eq: "acquire w = acquire ?w2"
        using nl Line True 1(2) by (subst acquire.simps) (simp add: Let_def emit_def)
      have ih: "case find (\<lambda>l. strip l \<noteq> []) (all_lines (stdin ?w2)) of
           Some l \<Rightarrow>
             fst (acquire ?w2) = Return [(''Authorization'', strip l)] \<and>
             auth_header (snd (acquire ?w2)) = Some [(''Authorization'', strip l)] \<and>
             lines_read (since ?w2 (snd (acquire ?w2))) =
               takeWhile (\<lambda>l. strip l = []) (all_lines (stdin ?w2)) @ [l]
         | None \<Rightarrow>
             fst (acquire ?w2) = (case tail (stdin ?w2) of Eof \<Rightarrow> Raise StopIteration | Silent \<Rightarrow> Hangs) \<and>
             auth_header (snd (acquire ?w2)) = None \<and>
             lines_read (since ?w2 (snd (acquire ?w2))) = all_lines (stdin ?w2)"
        using True 1(2) 1(1) [OF nl [symmetric] Line refl refl refl]
        by (simp add: emit_def cong: option.case_cong)
      obtain es where es: "trace (snd (acquire ?w2)) = trace ?w2 @ es"
        using acquire_trace by blast
      have s1: "since ?w2 (snd (acquire ?w2)) = es" using es by simp
      have s2: "since w (snd (acquire ?w2)) = Read l b # es"
        using es by (simp add: emit_def)
      show ?thesis
        using ih L True unfolding eq s1 s2
        by (auto simp: emit_def split: option.splits)
    next
      case False
      have eq: "acquire w = (Return [(''Authorization'', strip l)],
          (emit (Print [Text ''<new auth token>'']) (emit (Read l b) (w\<lparr>stdin := s'\<rparr>)))
            \<lparr>auth_header := Some [(''Authorization'', strip l)]\<rparr>)"
        using nl Line False by (subst acquire.simps) (simp add: Let_def)
      show ?thesis using L False unfolding eq
        by (simp add: emit_def since_def)
    qed
  next
    case AtEof
    have eq: "acquire w = (Raise StopIteration, w\<lparr>stdin := s'\<rparr>)"
      using nl AtEof by (subst acquire.simps) simp
    show ?thesis using next_line_AtEof [OF nl [unfolded AtEof]] 1(2) unfolding eq
      by (simp add: since_def)
  next
    case Never
    have eq: "acquire w = (Hangs, w\<lparr>stdin := s'\<rparr>)"
      using nl Never by (subst acquire.simps) simp
    show ?thesis using next_line_Never [OF nl [unfolded Never]] 1(2) unfolding eq
      by (simp add: since_def)
  qed
qed


lemma strip_sample [simp]: "strip line1 = ''bearer t1''" "strip line2 = ''bearer t2''"
  by (simp_all add: strip_def isspace_def newline_def line1_def line2_def)



lemma get_auth_header_frame:
  "\<exists>es. trace (snd (get_auth_header w)) = trace w @ es \<and>
        (\<forall>e \<in> set es. credential_event e) \<and>
        server (snd (get_auth_header w)) = server w \<and>
        tail (stdin (snd (get_auth_header w))) = tail (stdin w) \<and>
        all_lines (stdin w) = lines_read es @ all_lines (stdin (snd (get_auth_header w))) \<and>
        auth_header (snd (get_auth_header w)) = current_header (auth_header w) es \<and>
        (\<forall>h. fst (get_auth_header w) = Return h \<longrightarrow>
               auth_header (snd (get_auth_header w)) = Some h \<and>
               (lines_read es \<noteq> [] \<or> Select False \<in> set es)) \<and>
        (\<forall>e. fst (get_auth_header w) = Raise e \<longrightarrow> e = StopIteration)"
  (is "\<exists>es. ?P es")
proof (cases "auth_header w")
  case None
  then show ?thesis using acquire_frame [of w] by (auto simp: get_auth_header_def)
next
  case (Some h)
  show ?thesis
  proof (cases "readable (stdin w)")
    case True
    then have eq: "get_auth_header w = acquire (emit (Select True) w)"
      using Some by (simp add: get_auth_header_def)
    obtain es where es: "trace (snd (acquire (emit (Select True) w))) = trace (emit (Select True) w) @ es \<and>
        (\<forall>e \<in> set es. credential_event e) \<and>
        server (snd (acquire (emit (Select True) w))) = server (emit (Select True) w) \<and>
        tail (stdin (snd (acquire (emit (Select True) w)))) = tail (stdin (emit (Select True) w)) \<and>
        all_lines (stdin (emit (Select True) w)) = lines_read es @ all_lines (stdin (snd (acquire (emit (Select True) w)))) \<and>
        auth_header (snd (acquire (emit (Select True) w))) = current_header (auth_header (emit (Select True) w)) es \<and>
        (\<forall>h. fst (acquire (emit (Select True) w)) = Return h \<longrightarrow>
               auth_header (snd (acquire (emit (Select True) w))) = Some h \<and> lines_read es \<noteq> []) \<and>
        (\<forall>e. fst (acquire (emit (Select True) w)) = Raise e \<longrightarrow> e = StopIteration)"
      using acquire_frame [of "emit (Select True) w"] by blast
    have "?P (Select True # es)"
      unfolding eq using es by (auto simp: emit_def)
    then show ?thesis by blast
  next
    case False
    then have eq: "get_auth_header w = (Return h, emit (Select False) w)"
      using Some by (simp add: get_auth_header_def)
    have "?P [Select False]"
      unfolding eq using Some by (simp add: emit_def)
    then show ?thesis by blast
  qed
qed


lemma all_lines_elapse [simp]: "all_lines (elapse s) = all_lines s"
  by (simp add: elapse_def all_lines_def split: list.splits)

lemma tail_elapse [simp]: "tail (elapse s) = tail s"
  by (simp add: elapse_def split: list.splits)

lemma credential_available_emit [simp]:
  "credential_available (emit e w) = credential_available w"
  by (simp add: credential_available_def emit_def)

lemma credential_available_elapse [simp]:
  "credential_available (w\<lparr>stdin := elapse (stdin w)\<rparr>) = credential_available w"
  by (simp add: credential_available_def)

lemma credential_available_send [simp]:
  "credential_available (snd (send rq w)) = credential_available w"
  by (simp add: send_def Let_def credential_available_def emit_def)

lemma get_auth_header_available:
  assumes "credential_available w"
  shows "\<exists>h. fst (get_auth_header w) = Return h \<and>
             auth_header (snd (get_auth_header w)) = Some h \<and>
             credential_available (snd (get_auth_header w))"
proof -
  obtain es where fr: "tail (stdin (snd (get_auth_header w))) = tail (stdin w)"
    "\<forall>h. fst (get_auth_header w) = Return h \<longrightarrow> auth_header (snd (get_auth_header w)) = Some h"
    using get_auth_header_frame [of w] by blast
  have "\<exists>h. fst (get_auth_header w) = Return h"
  proof (cases "auth_header w")
    case None
    then obtain l where "find (\<lambda>l. strip l \<noteq> []) (all_lines (stdin w)) = Some l"
      using assms
      by (cases "find (\<lambda>l. strip l \<noteq> []) (all_lines (stdin w))")
         (auto simp: credential_available_def find_None_iff)
    then show ?thesis using acquire_initial [OF None] None
      by (simp add: get_auth_header_def)
  next
    case (Some h)
    then show ?thesis using assms
      by (simp add: get_auth_header_established credential_available_def split: list.splits)
  qed
  then show ?thesis using fr assms by (auto simp: credential_available_def)
qed

subsection \<open>The loops, one round at a time\<close>

lemma wait_for_success_Suc:
  "wait_for_success (Suc n) b g w =
     (case poll b g w of Inl w' \<Rightarrow> wait_for_success n b g w' | Inr r \<Rightarrow> Some r)"
  by (simp add: poll_def Let_def
        split: prod.splits outcome.splits response.splits sum.splits)

lemma toggle_each_Cons:
  "toggle_each a n b g (x # xs) w =
     (case toggle a b g x w of
        Inr r \<Rightarrow> Some r
      | Inl w3 \<Rightarrow>
          (case wait_for_success n b g w3 of
             None \<Rightarrow> None
           | Some (Return u, w4) \<Rightarrow> toggle_each a n b g xs w4
           | Some (Raise e, w4) \<Rightarrow> Some (Raise e, w4)
           | Some (Hangs, w4) \<Rightarrow> Some (Hangs, w4)))"
  by (simp add: toggle_def Let_def
        split: prod.splits outcome.splits response.splits sum.splits)

lemma send_eq:
  "send rq w = (server w 0, w\<lparr>trace := trace w @ [Http rq (server w 0)],
                              server := (\<lambda>i. server w (Suc i)),
                              stdin := elapse (stdin w)\<rparr>)"
  by (simp add: send_def Let_def emit_def)

lemma polled_Some:
  "polled k rs = Some v \<longleftrightarrow>
     (\<exists>st body. rs = Response st body \<and> \<not> is_error_status st \<and> last_operation body k = Inr v)"
  by (auto simp: polled_def split: response.splits sum.splits)

lemma last_operation_error: "last_operation body k = Inl e \<Longrightarrow> e \<noteq> SystemExit c"
  by (auto simp: last_operation_def split: option.splits sum.splits
        elim!: subscript.elims)

lemma poll_step:
  assumes gh: "get_auth_header ((emit (Sleep 10) w)\<lparr>stdin := elapse (stdin w)\<rparr>) = (Return h, w2)"
    and st: "polled ''state'' (server w 0) = Some s"
    and w3_def: "w3 = snd (send \<lparr>meth = GET, url_base = b, url_path = instance_path g,
                                    headers = h, json_body = None\<rparr> w2)"
  shows "s = JStr ''succeeded'' \<Longrightarrow>
           poll b g w = Inr (Return (), emit (Print [Text ''succeeded'', Text newline]) w3)"
    and "s = JStr ''failed'' \<Longrightarrow> polled ''description'' (server w 0) = Some d \<Longrightarrow>
           poll b g w = Inr (Raise (SystemExit 8),
                             emit (Print [Text ''description: '', Str d, Text newline]) w3)"
    and "s \<noteq> JStr ''succeeded'' \<Longrightarrow> s \<noteq> JStr ''failed'' \<Longrightarrow>
           poll b g w = Inl (emit (Print [Text ''.'']) w3)"
proof -
  have srv: "server w2 = server w"
    using get_auth_header_frame [of "(emit (Sleep 10) w)\<lparr>stdin := elapse (stdin w)\<rparr>"] gh
    by (auto simp: emit_def)
  obtain st body where rs: "server w 0 = Response st body" "\<not> is_error_status st"
    "last_operation body ''state'' = Inr s"
    using st by (auto simp: polled_Some)
  show "s = JStr ''succeeded'' \<Longrightarrow>
           poll b g w = Inr (Return (), emit (Print [Text ''succeeded'', Text newline]) w3)"
    using gh rs srv by (simp add: poll_def w3_def send_eq)
  show "s = JStr ''failed'' \<Longrightarrow> polled ''description'' (server w 0) = Some d \<Longrightarrow>
           poll b g w = Inr (Raise (SystemExit 8),
                             emit (Print [Text ''description: '', Str d, Text newline]) w3)"
    using gh rs srv by (simp add: poll_def w3_def send_eq polled_Some)
  show "s \<noteq> JStr ''succeeded'' \<Longrightarrow> s \<noteq> JStr ''failed'' \<Longrightarrow>
           poll b g w = Inl (emit (Print [Text ''.'']) w3)"
    using gh rs srv by (simp add: poll_def w3_def send_eq)
qed


lemma get_auth_header_server: "get_auth_header w = (out, w2) \<Longrightarrow> server w2 = server w"
  using get_auth_header_frame [of w] by auto

lemma get_auth_header_Raise: "get_auth_header w = (Raise e, w2) \<Longrightarrow> e = StopIteration"
  using get_auth_header_frame [of w] by auto

lemma polled_None:
  "polled k rs = None \<longleftrightarrow>
     rs = NoResponse \<or>
     (\<exists>st body. rs = Response st body \<and>
        (is_error_status st \<or> (\<exists>e. last_operation body k = Inl e)))"
  by (auto simp: polled_def split: response.splits sum.splits)

lemma poll_cases [consumes 1, case_names stop hangs no_state succeeded failed no_description again]:
  assumes "poll b g w = r"
  obtains
    (stop) w2 where
      "get_auth_header ((emit (Sleep 10) w)\<lparr>stdin := elapse (stdin w)\<rparr>) = (Raise StopIteration, w2)"
      "r = Inr (Raise StopIteration, w2)"
  | (hangs) w2 where
      "get_auth_header ((emit (Sleep 10) w)\<lparr>stdin := elapse (stdin w)\<rparr>) = (Hangs, w2)"
      "r = Inr (Hangs, w2)"
  | (no_state) h w2 e where
      "get_auth_header ((emit (Sleep 10) w)\<lparr>stdin := elapse (stdin w)\<rparr>) = (Return h, w2)"
      "polled ''state'' (server w 0) = None"
      "r = Inr (Raise e, snd (send \<lparr>meth = GET, url_base = b, url_path = instance_path g,
                                    headers = h, json_body = None\<rparr> w2))"
      "\<And>c. e \<noteq> SystemExit c"
  | (succeeded) h w2 where
      "get_auth_header ((emit (Sleep 10) w)\<lparr>stdin := elapse (stdin w)\<rparr>) = (Return h, w2)"
      "polled ''state'' (server w 0) = Some (JStr ''succeeded'')"
      "r = Inr (Return (), emit (Print [Text ''succeeded'', Text newline])
                 (snd (send \<lparr>meth = GET, url_base = b, url_path = instance_path g,
                             headers = h, json_body = None\<rparr> w2)))"
  | (failed) h w2 d where
      "get_auth_header ((emit (Sleep 10) w)\<lparr>stdin := elapse (stdin w)\<rparr>) = (Return h, w2)"
      "polled ''state'' (server w 0) = Some (JStr ''failed'')"
      "polled ''description'' (server w 0) = Some d"
      "r = Inr (Raise (SystemExit 8), emit (Print [Text ''description: '', Str d, Text newline])
                 (snd (send \<lparr>meth = GET, url_base = b, url_path = instance_path g,
                             headers = h, json_body = None\<rparr> w2)))"
  | (no_description) h w2 e where
      "get_auth_header ((emit (Sleep 10) w)\<lparr>stdin := elapse (stdin w)\<rparr>) = (Return h, w2)"
      "polled ''state'' (server w 0) = Some (JStr ''failed'')"
      "polled ''description'' (server w 0) = None"
      "r = Inr (Raise e, snd (send \<lparr>meth = GET, url_base = b, url_path = instance_path g,
                                    headers = h, json_body = None\<rparr> w2))"
      "\<And>c. e \<noteq> SystemExit c"
  | (again) h w2 s where
      "get_auth_header ((emit (Sleep 10) w)\<lparr>stdin := elapse (stdin w)\<rparr>) = (Return h, w2)"
      "polled ''state'' (server w 0) = Some s"
      "s \<noteq> JStr ''succeeded''" "s \<noteq> JStr ''failed''"
      "r = Inl (emit (Print [Text ''.''])
                 (snd (send \<lparr>meth = GET, url_base = b, url_path = instance_path g,
                             headers = h, json_body = None\<rparr> w2)))"
proof -
  let ?w1 = "(emit (Sleep 10) w)\<lparr>stdin := elapse (stdin w)\<rparr>"
  obtain out w2 where gh: "get_auth_header ?w1 = (out, w2)" by (cases "get_auth_header ?w1")
  have srv: "server w2 = server w"
    using get_auth_header_server [OF gh] by (simp add: emit_def)
  show ?thesis
  proof (cases out)
    case (Raise e)
    with get_auth_header_Raise gh have "e = StopIteration" by blast
    with Raise gh assms stop show ?thesis by (simp add: poll_def)
  next
    case Hangs
    with gh assms hangs show ?thesis by (simp add: poll_def)
  next
    case (Return h)
    let ?rq = "\<lparr>meth = GET, url_base = b, url_path = instance_path g,
                headers = h, json_body = None\<rparr>"
    note gh' = gh [unfolded Return]
    show ?thesis
    proof (cases "polled ''state'' (server w 0)")
      case None
      then consider "server w 0 = NoResponse"
        | st body where "server w 0 = Response st body" "is_error_status st"
        | st body e where "server w 0 = Response st body" "\<not> is_error_status st"
            "last_operation body ''state'' = Inl e"
        unfolding polled_None by blast
      then show ?thesis
      proof cases
        case 1
        then have "r = Inr (Raise ConnectionError, snd (send ?rq w2))"
          using gh' assms srv by (simp add: poll_def send_eq)
        then show ?thesis using no_state [OF gh' None] by simp
      next
        case 2
        then have "r = Inr (Raise (HTTPError st), snd (send ?rq w2))"
          using gh' assms srv by (simp add: poll_def send_eq)
        then show ?thesis using no_state [OF gh' None] by simp
      next
        case 3
        then have "r = Inr (Raise e, snd (send ?rq w2))"
          using gh' assms srv by (simp add: poll_def send_eq)
        then show ?thesis using no_state [OF gh' None] last_operation_error [OF 3(3)] by simp
      qed
    next
      case (Some s)
      note step = poll_step [where b = b and g = g, OF gh' Some refl]
      consider "s = JStr ''succeeded''"
        | d where "s = JStr ''failed''" "polled ''description'' (server w 0) = Some d"
        | "s = JStr ''failed''" "polled ''description'' (server w 0) = None"
        | "s \<noteq> JStr ''succeeded''" "s \<noteq> JStr ''failed''"
        by (cases "polled ''description'' (server w 0)") auto
      then show ?thesis
      proof cases
        case 1
        then show ?thesis using step(1) assms succeeded [OF gh'] Some by simp
      next
        case 2
        then show ?thesis using step(2) assms failed [OF gh'] Some by simp
      next
        case 3
        obtain st body where rs: "server w 0 = Response st body" "\<not> is_error_status st"
          "last_operation body ''state'' = Inr s"
          using Some by (auto simp: polled_Some)
        then obtain e where e: "last_operation body ''description'' = Inl e"
          using 3 by (auto simp: polled_None)
        have "r = Inr (Raise e, snd (send ?rq w2))"
          using gh' assms srv rs e 3 by (simp add: poll_def send_eq)
        then show ?thesis
          using no_description [OF gh' _ 3(2)] Some 3(1) last_operation_error [OF e] by simp
      next
        case 4
        then show ?thesis using step(3) assms again [OF gh' Some] by simp
      qed
    qed
  qed
qed


lemma toggle_cases [consumes 1, case_names stop hangs rejected accepted]:
  assumes "toggle a b g x w = r"
  obtains
    (stop) w2 where
      "get_auth_header (emit (Print [Text (announce a), Repr x]) w) = (Raise StopIteration, w2)"
      "r = Inr (Raise StopIteration, w2)"
  | (hangs) w2 where
      "get_auth_header (emit (Print [Text (announce a), Repr x]) w) = (Hangs, w2)"
      "r = Inr (Hangs, w2)"
  | (rejected) h w2 e where
      "get_auth_header (emit (Print [Text (announce a), Repr x]) w) = (Return h, w2)"
      "r = Inr (Raise e, snd (send (toggle_request a b g x h) w2))"
      "\<And>c. e \<noteq> SystemExit c"
      "server w 0 = NoResponse \<or> (\<exists>st body. server w 0 = Response st body \<and> is_error_status st)"
  | (accepted) h w2 st body where
      "get_auth_header (emit (Print [Text (announce a), Repr x]) w) = (Return h, w2)"
      "r = Inl (snd (send (toggle_request a b g x h) w2))"
      "server w 0 = Response st body" "\<not> is_error_status st"
proof -
  let ?w1 = "emit (Print [Text (announce a), Repr x]) w"
  obtain out w2 where gh: "get_auth_header ?w1 = (out, w2)" by (cases "get_auth_header ?w1")
  have srv: "server w2 = server w"
    using get_auth_header_server [OF gh] by (simp add: emit_def)
  show ?thesis
  proof (cases out)
    case (Raise e)
    with get_auth_header_Raise gh have "e = StopIteration" by blast
    with Raise gh assms stop show ?thesis by (simp add: toggle_def)
  next
    case Hangs
    with gh assms hangs show ?thesis by (simp add: toggle_def)
  next
    case (Return h)
    note gh' = gh [unfolded Return]
    show ?thesis
    proof (cases "server w 0")
      case NoResponse
      then have "r = Inr (Raise ConnectionError, snd (send (toggle_request a b g x h) w2))"
        using gh' assms srv by (simp add: toggle_def send_eq)
      then show ?thesis using rejected [OF gh'] NoResponse by simp
    next
      case (Response st body)
      show ?thesis
      proof (cases "is_error_status st")
        case True
        then have "r = Inr (Raise (HTTPError st), snd (send (toggle_request a b g x h) w2))"
          using gh' assms srv Response by (simp add: toggle_def send_eq)
        then show ?thesis using rejected [OF gh'] Response True by simp
      next
        case False
        then have "r = Inl (snd (send (toggle_request a b g x h) w2))"
          using gh' assms srv Response by (simp add: toggle_def send_eq)
        then show ?thesis using accepted [OF gh' _ Response False] by simp
      qed
    qed
  qed
qed

lemma steps_keepD:
  assumes "steps_keep I T"
  shows "\<And>w fs. I w \<Longrightarrow> I (emit (Print fs) w)"
    and "\<And>w. I w \<Longrightarrow> I ((emit (Sleep 10) w)\<lparr>stdin := elapse (stdin w)\<rparr>)"
    and "\<And>w. I w \<Longrightarrow> I (snd (get_auth_header w))"
    and "\<And>w h w2 rq. I w \<Longrightarrow> get_auth_header w = (Return h, w2) \<Longrightarrow> headers rq = h \<Longrightarrow>
               \<not> (meth rq = GET \<and> polled ''state'' (server w 0) = Some (JStr ''failed'') \<and>
                  polled ''description'' (server w 0) \<noteq> None) \<Longrightarrow>
               I (snd (send rq w2))"
    and "\<And>w h w2 rq d. I w \<Longrightarrow> get_auth_header w = (Return h, w2) \<Longrightarrow> headers rq = h \<Longrightarrow>
               meth rq = GET \<Longrightarrow> polled ''state'' (server w 0) = Some (JStr ''failed'') \<Longrightarrow>
               polled ''description'' (server w 0) = Some d \<Longrightarrow>
               T (emit (Print [Text ''description: '', Str d, Text newline]) (snd (send rq w2)))"
proof -
  note k = assms [unfolded steps_keep_def]
  from k have 1: "\<forall>w fs. I w \<longrightarrow> I (emit (Print fs) w)" by (elim conjE)
  from k have 2: "\<forall>w. I w \<longrightarrow> I ((emit (Sleep 10) w)\<lparr>stdin := elapse (stdin w)\<rparr>)"
    by (elim conjE)
  from k have 3: "\<forall>w. I w \<longrightarrow> I (snd (get_auth_header w))" by (elim conjE)
  from k have 4: "\<forall>w h w2 rq. I w \<longrightarrow> get_auth_header w = (Return h, w2) \<longrightarrow> headers rq = h \<longrightarrow>
        \<not> (meth rq = GET \<and> polled ''state'' (server w 0) = Some (JStr ''failed'') \<and>
           polled ''description'' (server w 0) \<noteq> None) \<longrightarrow>
        I (snd (send rq w2))" by (elim conjE)
  from k have 5: "\<forall>w h w2 rq d. I w \<longrightarrow> get_auth_header w = (Return h, w2) \<longrightarrow> headers rq = h \<longrightarrow>
        meth rq = GET \<longrightarrow> polled ''state'' (server w 0) = Some (JStr ''failed'') \<longrightarrow>
        polled ''description'' (server w 0) = Some d \<longrightarrow>
        T (emit (Print [Text ''description: '', Str d, Text newline]) (snd (send rq w2)))"
    by (elim conjE)
  show "\<And>w fs. I w \<Longrightarrow> I (emit (Print fs) w)"
    using 1 [rule_format] by assumption
  show "\<And>w. I w \<Longrightarrow> I ((emit (Sleep 10) w)\<lparr>stdin := elapse (stdin w)\<rparr>)"
    using 2 [rule_format] by assumption
  show "\<And>w. I w \<Longrightarrow> I (snd (get_auth_header w))"
    using 3 [rule_format] by assumption
  show "\<And>w h w2 rq. I w \<Longrightarrow> get_auth_header w = (Return h, w2) \<Longrightarrow> headers rq = h \<Longrightarrow>
               \<not> (meth rq = GET \<and> polled ''state'' (server w 0) = Some (JStr ''failed'') \<and>
                  polled ''description'' (server w 0) \<noteq> None) \<Longrightarrow>
               I (snd (send rq w2))"
    using 4 [rule_format] by assumption
  show "\<And>w h w2 rq d. I w \<Longrightarrow> get_auth_header w = (Return h, w2) \<Longrightarrow> headers rq = h \<Longrightarrow>
               meth rq = GET \<Longrightarrow> polled ''state'' (server w 0) = Some (JStr ''failed'') \<Longrightarrow>
               polled ''description'' (server w 0) = Some d \<Longrightarrow>
               T (emit (Print [Text ''description: '', Str d, Text newline]) (snd (send rq w2)))"
    using 5 [rule_format] by assumption
qed

lemma wait_rule:
  assumes keep: "steps_keep I T"
    and run: "wait_for_success n b g w = Some (out, w')" and I: "I w"
  shows "(out = Raise (SystemExit 8) \<longrightarrow> T w') \<and>
         (out \<noteq> Raise (SystemExit 8) \<longrightarrow> I w' \<and> (\<forall>c. out \<noteq> Raise (SystemExit c)))"
  using run I
proof (induction n arbitrary: w)
  case 0
  then show ?case by simp
next
  case (Suc n)
  let ?w1 = "(emit (Sleep 10) w)\<lparr>stdin := elapse (stdin w)\<rparr>"
  note pr = steps_keepD(1) [OF keep] and gh = steps_keepD(3) [OF keep]
    and rq = steps_keepD(4) [OF keep] and fl = steps_keepD(5) [OF keep]
  have I1: "I ?w1" using steps_keepD(2) [OF keep] Suc.prems(2) .
  have srv1: "server ?w1 = server w" by (simp add: emit_def)
  let ?rq = "\<lambda>h. \<lparr>meth = GET, url_base = b, url_path = instance_path g,
                    headers = h, json_body = None\<rparr>"
  obtain r where r: "poll b g w = r" by blast
  note run' = Suc.prems(1) [unfolded wait_for_success_Suc r]
  from r show ?case
  proof (cases rule: poll_cases)
    case (stop w2)
    then show ?thesis using run' gh [OF I1] by auto
  next
    case (hangs w2)
    then show ?thesis using run' gh [OF I1] by auto
  next
    case (no_state h w2 e)
    then show ?thesis using run' rq [OF I1 no_state(1), of "?rq h"] srv1
      by auto
  next
    case (succeeded h w2)
    then show ?thesis using run' pr rq [OF I1 succeeded(1), of "?rq h"] srv1
      by auto
  next
    case (failed h w2 d)
    then show ?thesis using run' fl [OF I1 failed(1), of "?rq h" d] srv1
      by auto
  next
    case (no_description h w2 e)
    then show ?thesis using run' rq [OF I1 no_description(1), of "?rq h"] srv1
      by auto
  next
    case (again h w2 s)
    have "I (emit (Print [Text ''.'']) (snd (send (?rq h) w2)))"
      using again pr rq [OF I1 again(1), of "?rq h"] srv1
      by auto
    moreover have "wait_for_success n b g (emit (Print [Text ''.'']) (snd (send (?rq h) w2))) = Some (out, w')"
      using run' again by simp
    ultimately show ?thesis using Suc.IH by blast
  qed
qed


lemma toggle_each_rule:
  assumes keep: "steps_keep I T"
    and run: "toggle_each a n b g xs w = Some (out, w')" and I: "I w"
  shows "(out = Raise (SystemExit 8) \<longrightarrow> T w') \<and>
         (out \<noteq> Raise (SystemExit 8) \<longrightarrow> I w' \<and> (\<forall>c. out \<noteq> Raise (SystemExit c)))"
  using run I
proof (induction xs arbitrary: w)
  case Nil
  then show ?case by auto
next
  case (Cons x xs)
  let ?w1 = "emit (Print [Text (announce a), Repr x]) w"
  note gh = steps_keepD(3) [OF keep] and rq = steps_keepD(4) [OF keep]
  have I1: "I ?w1" using steps_keepD(1) [OF keep] Cons.prems(2) .
  obtain r where r: "toggle a b g x w = r" by blast
  note run' = Cons.prems(1) [unfolded toggle_each_Cons r]
  from r show ?case
  proof (cases rule: toggle_cases)
    case (stop w2)
    have "out = Raise StopIteration" "w' = w2"
      using run' unfolding stop(2) by simp_all
    moreover have "I w2" using gh [OF I1] unfolding stop(1) by simp
    ultimately show ?thesis by simp
  next
    case (hangs w2)
    have "out = Hangs" "w' = w2"
      using run' unfolding hangs(2) by simp_all
    moreover have "I w2" using gh [OF I1] unfolding hangs(1) by simp
    ultimately show ?thesis by simp
  next
    case (rejected h w2 e)
    have tr: "headers (toggle_request a b g x h) = h" "meth (toggle_request a b g x h) = PATCH"
      by (simp_all add: toggle_request_def)
    have "I (snd (send (toggle_request a b g x h) w2))"
      by (rule rq [OF I1 rejected(1) tr(1)]) (simp add: tr(2))
    moreover have "out = Raise e" "w' = snd (send (toggle_request a b g x h) w2)"
      using run' unfolding rejected(2) by simp_all
    ultimately show ?thesis using rejected(3) by simp
  next
    case (accepted h w2 st body)
    let ?w3 = "snd (send (toggle_request a b g x h) w2)"
    have tr: "headers (toggle_request a b g x h) = h" "meth (toggle_request a b g x h) = PATCH"
      by (simp_all add: toggle_request_def)
    have I3: "I ?w3"
      by (rule rq [OF I1 accepted(1) tr(1)]) (simp add: tr(2))
    have run3: "(case wait_for_success n b g ?w3 of
             None \<Rightarrow> None
           | Some (Return u, w4) \<Rightarrow> toggle_each a n b g xs w4
           | Some (Raise e, w4) \<Rightarrow> Some (Raise e, w4)
           | Some (Hangs, w4) \<Rightarrow> Some (Hangs, w4)) = Some (out, w')"
      using run' unfolding accepted(2) by simp
    show ?thesis
    proof (cases "wait_for_success n b g ?w3")
      case None
      then show ?thesis using run3 by simp
    next
      case (Some p)
      obtain o4 w4 where p: "p = (o4, w4)" by (cases p)
      note ws = Some [unfolded p]
      note wr = wait_rule [OF keep ws I3]
      show ?thesis
      proof (cases o4)
        case (Return u)
        have "toggle_each a n b g xs w4 = Some (out, w')"
          using run3 unfolding ws Return by simp
        moreover have "I w4" using wr unfolding Return by simp
        ultimately show ?thesis by (rule Cons.IH)
      next
        case (Raise e)
        have "out = o4" "w' = w4"
          using run3 unfolding ws Raise by simp_all
        then show ?thesis using wr by simp
      next
        case Hangs
        have "out = o4" "w' = w4"
          using run3 unfolding ws Hangs by simp_all
        then show ?thesis using wr by simp
      qed
    qed
  qed
qed

lemma test_extensions_Cons:
  "test_extensions n b g (xs # plan) w =
     (case toggle_each Enable n b g xs w of
        None \<Rightarrow> None
      | Some (o1, w1) \<Rightarrow>
          if o1 = Return () then
            (case toggle_each Disable n b g (rev xs) w1 of
               None \<Rightarrow> None
             | Some (o2, w2) \<Rightarrow>
                 if o2 = Return () then test_extensions n b g plan w2 else Some (o2, w2))
          else Some (o1, w1))"
  by (simp split: option.splits prod.splits outcome.splits)

lemma test_extensions_rule:
  assumes keep: "steps_keep I T"
    and run: "test_extensions n b g plan w = Some (out, w')" and I: "I w"
  shows "(out = Raise (SystemExit 8) \<longrightarrow> T w') \<and>
         (out \<noteq> Raise (SystemExit 8) \<longrightarrow> I w' \<and> (\<forall>c. out \<noteq> Raise (SystemExit c)))"
  using run I
proof (induction plan arbitrary: w)
  case Nil
  then show ?case by auto
next
  case (Cons xs plan)
  note run' = Cons.prems(1) [unfolded test_extensions_Cons]
  show ?case
  proof (cases "toggle_each Enable n b g xs w")
    case None
    then show ?thesis using run' by simp
  next
    case (Some p1)
    obtain o1 w1 where p1: "p1 = (o1, w1)" by (cases p1)
    note e1 = Some [unfolded p1]
    note r1 = toggle_each_rule [OF keep e1 Cons.prems(2)]
    show ?thesis
    proof (cases "o1 = Return ()")
      case False
      have "out = o1" "w' = w1"
        using run' False unfolding e1 by simp_all
      then show ?thesis using r1 by simp
    next
      case True
      have I1: "I w1" using r1 True by simp
      show ?thesis
      proof (cases "toggle_each Disable n b g (rev xs) w1")
        case None
        then show ?thesis using run' True unfolding e1 by simp
      next
        case (Some p2)
        obtain o2 w2 where p2: "p2 = (o2, w2)" by (cases p2)
        note e2 = Some [unfolded p2]
        note r2 = toggle_each_rule [OF keep e2 I1]
        show ?thesis
        proof (cases "o2 = Return ()")
          case False
          have "out = o2" "w' = w2"
            using run' True False unfolding e1 by (simp_all add: e2)
          then show ?thesis using r2 by simp
        next
          case True2: True
          have "I w2" using r2 True2 by simp
          moreover have "test_extensions n b g plan w2 = Some (out, w')"
            using run' True True2 unfolding e1 by (simp add: e2)
          ultimately show ?thesis using Cons.IH by blast
        qed
      qed
    qed
  qed
qed


subsection \<open>A header exists: no wait, at most one line\<close>









section \<open>The polling loop\<close>





lemma server_after_poll:
  assumes "get_auth_header ((emit (Sleep 10) w)\<lparr>stdin := elapse (stdin w)\<rparr>) = (Return h, w2)"
  shows "server (emit e (snd (send rq w2))) = (\<lambda>i. server w (Suc i))"
  using get_auth_header_server [OF assms] by (simp add: send_eq emit_def)

lemma wait_Return_only_if:
  "wait_for_success n b g w = Some (Return (), w') \<Longrightarrow>
     \<exists>k<n. polled ''state'' (server w k) = Some (JStr ''succeeded'') \<and>
           (\<forall>j<k. \<not> terminal (polled ''state'' (server w j)))"
proof (induction n arbitrary: w)
  case 0
  then show ?case by simp
next
  case (Suc n)
  obtain r where r: "poll b g w = r" by blast
  note run = Suc.prems [unfolded wait_for_success_Suc r]
  from r show ?case
  proof (cases rule: poll_cases)
    case (succeeded h w2)
    then show ?thesis by auto
  next
    case (again h w2 s)
    let ?w'' = "emit (Print [Text ''.'']) (snd (send \<lparr>meth = GET, url_base = b,
                  url_path = instance_path g, headers = h, json_body = None\<rparr> w2))"
    have "wait_for_success n b g ?w'' = Some (Return (), w')"
      using run unfolding again(5) by simp
    from Suc.IH [OF this] obtain k where k: "k < n"
      "polled ''state'' (server ?w'' k) = Some (JStr ''succeeded'')"
      "\<forall>j<k. \<not> terminal (polled ''state'' (server ?w'' j))" by blast
    have srv: "server ?w'' = (\<lambda>i. server w (Suc i))" by (rule server_after_poll [OF again(1)])
    have "\<forall>j<Suc k. \<not> terminal (polled ''state'' (server w j))"
    proof (intro allI impI)
      fix j assume "j < Suc k"
      then show "\<not> terminal (polled ''state'' (server w j))"
        using k(3) again(2,3,4) unfolding srv by (cases j) (auto simp: terminal_def)
    qed
    then show ?thesis using k(1,2) unfolding srv by (intro exI [of _ "Suc k"]) simp
  qed (use run in simp_all)
qed

lemma wait_SystemExit_only_if:
  "wait_for_success n b g w = Some (Raise (SystemExit c), w') \<Longrightarrow>
     \<exists>k<n. \<exists>d. c = 8 \<and> polled ''state'' (server w k) = Some (JStr ''failed'') \<and>
           polled ''description'' (server w k) = Some d \<and>
           (\<forall>j<k. \<not> terminal (polled ''state'' (server w j))) \<and>
           last (trace w') = Print [Text ''description: '', Str d, Text newline]"
proof (induction n arbitrary: w)
  case 0
  then show ?case by simp
next
  case (Suc n)
  obtain r where r: "poll b g w = r" by blast
  note run = Suc.prems [unfolded wait_for_success_Suc r]
  from r show ?case
  proof (cases rule: poll_cases)
    case (failed h w2 d)
    have "c = 8" "last (trace w') = Print [Text ''description: '', Str d, Text newline]"
      using run unfolding failed(4) by (auto simp: emit_def)
    then show ?thesis using failed(2,3) by auto
  next
    case (again h w2 s)
    let ?w'' = "emit (Print [Text ''.'']) (snd (send \<lparr>meth = GET, url_base = b,
                  url_path = instance_path g, headers = h, json_body = None\<rparr> w2))"
    have "wait_for_success n b g ?w'' = Some (Raise (SystemExit c), w')"
      using run unfolding again(5) by simp
    from Suc.IH [OF this] obtain k d where k: "k < n" "c = 8"
      "polled ''state'' (server ?w'' k) = Some (JStr ''failed'')"
      "polled ''description'' (server ?w'' k) = Some d"
      "\<forall>j<k. \<not> terminal (polled ''state'' (server ?w'' j))"
      "last (trace w') = Print [Text ''description: '', Str d, Text newline]" by blast
    have srv: "server ?w'' = (\<lambda>i. server w (Suc i))" by (rule server_after_poll [OF again(1)])
    have "\<forall>j<Suc k. \<not> terminal (polled ''state'' (server w j))"
    proof (intro allI impI)
      fix j assume "j < Suc k"
      then show "\<not> terminal (polled ''state'' (server w j))"
        using k(5) again(2,3,4) unfolding srv by (cases j) (auto simp: terminal_def)
    qed
    then show ?thesis using k(1,2,3,4,6) unfolding srv
      by (intro exI [of _ "Suc k"] exI [of _ d]) simp
  next
    case (no_state h w2 e)
    then show ?thesis using run by auto
  next
    case (no_description h w2 e)
    then show ?thesis using run by auto
  qed (use run in simp_all)
qed


lemma poll_available:
  assumes "credential_available w"
  shows "\<exists>h w2. get_auth_header ((emit (Sleep 10) w)\<lparr>stdin := elapse (stdin w)\<rparr>) = (Return h, w2) \<and>
                credential_available w2"
proof -
  let ?w1 = "(emit (Sleep 10) w)\<lparr>stdin := elapse (stdin w)\<rparr>"
  have "credential_available ?w1"
    using assms
    by (simp add: credential_available_def emit_def)
  from get_auth_header_available [OF this]
  obtain h where h: "fst (get_auth_header ?w1) = Return h"
    "credential_available (snd (get_auth_header ?w1))" by blast
  have "get_auth_header ?w1 = (Return h, snd (get_auth_header ?w1))"
    using h(1) by (metis prod.collapse)
  with h(2) show ?thesis by blast
qed

lemma wait_if:
  assumes "credential_available w"
    and "\<forall>j<k. polled ''state'' (server w j) \<noteq> None \<and> \<not> terminal (polled ''state'' (server w j))"
  shows "(polled ''state'' (server w k) = Some (JStr ''succeeded'') \<longrightarrow>
           (\<exists>w'. wait_for_success (Suc k) b g w = Some (Return (), w'))) \<and>
         (polled ''state'' (server w k) = Some (JStr ''failed'') \<and>
          polled ''description'' (server w k) = Some d \<longrightarrow>
           (\<exists>w'. wait_for_success (Suc k) b g w = Some (Raise (SystemExit 8), w') \<and>
                last (trace w') = Print [Text ''description: '', Str d, Text newline]))"
  using assms
proof (induction k arbitrary: w)
  case 0
  obtain h w2 where gh:
    "get_auth_header ((emit (Sleep 10) w)\<lparr>stdin := elapse (stdin w)\<rparr>) = (Return h, w2)"
    using poll_available [OF "0.prems"(1)] by blast
  have "\<exists>w'. wait_for_success (Suc 0) b g w = Some (Return (), w')"
    if s: "polled ''state'' (server w 0) = Some (JStr ''succeeded'')"
    unfolding wait_for_success_Suc by (simp add: poll_step(1) [OF gh s refl])
  moreover have "\<exists>w'. wait_for_success (Suc 0) b g w = Some (Raise (SystemExit 8), w') \<and>
                last (trace w') = Print [Text ''description: '', Str d, Text newline]"
    if s: "polled ''state'' (server w 0) = Some (JStr ''failed'')"
      and d: "polled ''description'' (server w 0) = Some d"
    unfolding wait_for_success_Suc by (simp add: poll_step(2) [OF gh s refl refl d] emit_def)
  ultimately show ?case by blast
next
  case (Suc k)
  obtain h w2 where gh:
    "get_auth_header ((emit (Sleep 10) w)\<lparr>stdin := elapse (stdin w)\<rparr>) = (Return h, w2)"
    and av2: "credential_available w2"
    using poll_available [OF Suc.prems(1)] by blast
  let ?w'' = "emit (Print [Text ''.'']) (snd (send \<lparr>meth = GET, url_base = b,
                url_path = instance_path g, headers = h, json_body = None\<rparr> w2))"
  obtain s where s: "polled ''state'' (server w 0) = Some s"
    "s \<noteq> JStr ''succeeded''" "s \<noteq> JStr ''failed''"
    using Suc.prems(2) by (auto simp: terminal_def)
  have step: "wait_for_success (Suc (Suc k)) b g w = wait_for_success (Suc k) b g ?w''"
    unfolding wait_for_success_Suc [of "Suc k" b g w]
    by (simp add: poll_step(3) [OF gh s(1) refl s(2,3)])
  have av: "credential_available ?w''" using av2 by simp
  have srv: "server ?w'' = (\<lambda>i. server w (Suc i))" by (rule server_after_poll [OF gh])
  have rest: "\<forall>j<k. polled ''state'' (server ?w'' j) \<noteq> None \<and>
                  \<not> terminal (polled ''state'' (server ?w'' j))"
    using Suc.prems(2) unfolding srv by auto
  show ?case
    using Suc.IH [OF av rest] unfolding step srv .
qed


lemma polled_samples [simp]:
  "polled ''state'' in_progress = Some (JStr ''in progress'')"
  "polled ''state'' succeeded_response = Some (JStr ''succeeded'')"
  "polled ''state'' failed_response = Some (JStr ''failed'')"
  "polled ''description'' failed_response = Some (JStr ''dependency missing'')"
  by (simp_all add: in_progress_def succeeded_response_def failed_response_def polled_def
        is_error_status_def last_operation_def)

text \<open>
  C2. Let every poll find a credential and read a state, and a description with every
  state \<open>failed\<close>. Then \<open>_wait_for_success\<close> returns if and only if the states polled
  reach \<open>succeeded\<close> with no \<open>failed\<close> before it; and it reports the description \<open>d\<close>
  and raises \<open>SystemExit 8\<close> if and only if the states polled reach \<open>failed\<close>, with the
  description \<open>d\<close>, before any \<open>succeeded\<close>.
\<close>

theorem wait_for_success_iff:
  assumes avail: "credential_available w"
    and states: "\<forall>k. polled ''state'' (server w k) \<noteq> None"
    and descr: "\<forall>k. polled ''state'' (server w k) = Some (JStr ''failed'') \<longrightarrow>
                    polled ''description'' (server w k) \<noteq> None"
  shows "((\<exists>n w'. wait_for_success n b g w = Some (Return (), w')) \<longleftrightarrow>
          (\<exists>k. polled ''state'' (server w k) = Some (JStr ''succeeded'') \<and>
               (\<forall>j<k. polled ''state'' (server w j) \<noteq> Some (JStr ''failed'')))) \<and>
         (\<forall>d. (\<exists>n w'. wait_for_success n b g w = Some (Raise (SystemExit 8), w') \<and>
                      last (trace w') = Print [Text ''description: '', Str d, Text newline]) \<longleftrightarrow>
              (\<exists>k. polled ''state'' (server w k) = Some (JStr ''failed'') \<and>
                   polled ''description'' (server w k) = Some d \<and>
                   (\<forall>j<k. polled ''state'' (server w j) \<noteq> Some (JStr ''succeeded'') \<and>
                          polled ''state'' (server w j) \<noteq> Some (JStr ''failed''))))"
proof (intro conjI allI iffI)
  assume "\<exists>n w'. wait_for_success n b g w = Some (Return (), w')"
  then obtain n w' where "wait_for_success n b g w = Some (Return (), w')" by blast
  from wait_Return_only_if [OF this]
  show "\<exists>k. polled ''state'' (server w k) = Some (JStr ''succeeded'') \<and>
            (\<forall>j<k. polled ''state'' (server w j) \<noteq> Some (JStr ''failed''))"
    by (auto simp: terminal_def)
next
  assume "\<exists>k. polled ''state'' (server w k) = Some (JStr ''succeeded'') \<and>
            (\<forall>j<k. polled ''state'' (server w j) \<noteq> Some (JStr ''failed''))"
  then obtain k where k: "polled ''state'' (server w k) = Some (JStr ''succeeded'')"
    "\<forall>j<k. polled ''state'' (server w j) \<noteq> Some (JStr ''failed'')" by blast
  define k0 where "k0 = (LEAST i. terminal (polled ''state'' (server w i)))"
  have tk: "terminal (polled ''state'' (server w k))" using k(1) by (simp add: terminal_def)
  have t0: "terminal (polled ''state'' (server w k0))"
    unfolding k0_def using tk by (rule LeastI)
  have le: "k0 \<le> k" unfolding k0_def using tk by (rule Least_le)
  have before: "\<forall>j<k0. polled ''state'' (server w j) \<noteq> None \<and>
                     \<not> terminal (polled ''state'' (server w j))"
    using states not_less_Least unfolding k0_def by blast
  have "polled ''state'' (server w k0) = Some (JStr ''succeeded'')"
  proof (cases "k0 = k")
    case True
    then show ?thesis using k(1) by simp
  next
    case False
    then have "k0 < k" using le by simp
    then show ?thesis using k(2) t0 by (auto simp: terminal_def)
  qed
  with wait_if [OF avail before, where b = b and g = g]
  show "\<exists>n w'. wait_for_success n b g w = Some (Return (), w')" by blast
next
  fix d
  assume "\<exists>n w'. wait_for_success n b g w = Some (Raise (SystemExit 8), w') \<and>
                 last (trace w') = Print [Text ''description: '', Str d, Text newline]"
  then obtain n w' where r: "wait_for_success n b g w = Some (Raise (SystemExit 8), w')"
    "last (trace w') = Print [Text ''description: '', Str d, Text newline]" by blast
  from wait_SystemExit_only_if [OF r(1)] r(2)
  show "\<exists>k. polled ''state'' (server w k) = Some (JStr ''failed'') \<and>
            polled ''description'' (server w k) = Some d \<and>
            (\<forall>j<k. polled ''state'' (server w j) \<noteq> Some (JStr ''succeeded'') \<and>
                   polled ''state'' (server w j) \<noteq> Some (JStr ''failed''))"
    by (auto simp: terminal_def)
next
  fix d
  assume "\<exists>k. polled ''state'' (server w k) = Some (JStr ''failed'') \<and>
            polled ''description'' (server w k) = Some d \<and>
            (\<forall>j<k. polled ''state'' (server w j) \<noteq> Some (JStr ''succeeded'') \<and>
                   polled ''state'' (server w j) \<noteq> Some (JStr ''failed''))"
  then obtain k where k: "polled ''state'' (server w k) = Some (JStr ''failed'')"
    "polled ''description'' (server w k) = Some d"
    "\<forall>j<k. polled ''state'' (server w j) \<noteq> Some (JStr ''succeeded'') \<and>
           polled ''state'' (server w j) \<noteq> Some (JStr ''failed'')" by blast
  have before: "\<forall>j<k. polled ''state'' (server w j) \<noteq> None \<and>
                     \<not> terminal (polled ''state'' (server w j))"
    using states k(3) by (simp add: terminal_def)
  from wait_if [OF avail before, where d = d and b = b and g = g] k(1,2)
  show "\<exists>n w'. wait_for_success n b g w = Some (Raise (SystemExit 8), w') \<and>
               last (trace w') = Print [Text ''description: '', Str d, Text newline]"
    by blast
qed

theorem wait_for_success_iff_witness:
  "credential_available c2_world \<and>
   polled ''state'' (server c2_world 1) = Some (JStr ''succeeded'') \<and>
   (\<exists>n w'. wait_for_success n ''https://api.example'' ''guid'' c2_world = Some (Return (), w'))"
proof -
  have a: "credential_available c2_world"
    by (simp add: c2_world_def credential_available_def)
  have s: "\<forall>k. polled ''state'' (server c2_world k) \<noteq> None"
    by (simp add: c2_world_def)
  have d: "\<forall>k. polled ''state'' (server c2_world k) = Some (JStr ''failed'') \<longrightarrow>
               polled ''description'' (server c2_world k) \<noteq> None"
    by (simp add: c2_world_def)
  have k: "polled ''state'' (server c2_world 1) = Some (JStr ''succeeded'') \<and>
           (\<forall>j<1. polled ''state'' (server c2_world j) \<noteq> Some (JStr ''failed''))"
    by (simp add: c2_world_def)
  show ?thesis
    using wait_for_success_iff [OF a s d, of "''https://api.example''" "''guid''"] a k
    by blast
qed



section \<open>Properties of a whole run\<close>

lemma steps_keepI:
  assumes pr: "\<And>w fs. I w \<Longrightarrow> I (emit (Print fs) w)"
    and sl: "\<And>w. I w \<Longrightarrow> I ((emit (Sleep 10) w)\<lparr>stdin := elapse (stdin w)\<rparr>)"
    and gh: "\<And>w. I w \<Longrightarrow> I (snd (get_auth_header w))"
    and rq: "\<And>w h w2 rq. I w \<Longrightarrow> get_auth_header w = (Return h, w2) \<Longrightarrow>
               headers (rq :: request) = h \<Longrightarrow> I (snd (send rq w2))"
  shows "steps_keep I I"
  unfolding steps_keep_def
proof (intro conjI allI impI)
  fix w fs assume "I w" then show "I (emit (Print fs) w)" by (rule pr)
next
  fix w assume "I w" then show "I ((emit (Sleep 10) w)\<lparr>stdin := elapse (stdin w)\<rparr>)" by (rule sl)
next
  fix w assume "I w" then show "I (snd (get_auth_header w))" by (rule gh)
next
  fix w h w2 and rq :: request
  assume "I w" "get_auth_header w = (Return h, w2)" "headers rq = h"
  then show "I (snd (send rq w2))" by (rule rq)
next
  fix w h w2 d and rq :: request
  assume "I w" "get_auth_header w = (Return h, w2)" "headers rq = h"
  then have "I (snd (send rq w2))" by (rule rq)
  then show "I (emit (Print [Text ''description: '', Str d, Text newline]) (snd (send rq w2)))"
    by (rule pr)
qed

lemma test_extensions_invariant:
  assumes "steps_keep I I" and "test_extensions n b g plan w = Some (out, w')" and "I w"
  shows "I w'"
  using test_extensions_rule [OF assms] by (cases "out = Raise (SystemExit 8)") simp_all







lemma strip_newline [simp]: "strip newline = []"
  by (simp add: strip_def isspace_def newline_def)



lemma requests_credential_events:
  "\<forall>e \<in> set es. credential_event e \<Longrightarrow> requests es = []"
  by (induction es rule: requests.induct) auto

lemma requests_append: "requests (es @ es') = requests es @ requests es'"
  by (induction es rule: requests.induct) auto

lemma get_auth_header_exhausted:
  assumes "auth_header w = None" and "\<forall>l \<in> set (all_lines (stdin w)). strip l = []"
    and "tail (stdin w) = Eof"
  shows "\<exists>w2 es. get_auth_header w = (Raise StopIteration, w2) \<and> auth_header w2 = None \<and>
           trace w2 = trace w @ es \<and> requests es = []"
proof -
  have f: "find (\<lambda>l. strip l \<noteq> []) (all_lines (stdin w)) = None"
    using assms(2) by (simp add: find_None_iff)
  have a: "fst (get_auth_header w) = Raise StopIteration"
    "auth_header (snd (get_auth_header w)) = None"
    using acquire_initial [OF assms(1)] assms(1,3) f by (simp_all add: get_auth_header_def)
  obtain es where es: "trace (snd (get_auth_header w)) = trace w @ es"
    "\<forall>e \<in> set es. credential_event e"
    using get_auth_header_frame [of w] by blast
  have "get_auth_header w = (Raise StopIteration, snd (get_auth_header w))"
    using a(1) by (metis prod.collapse)
  then show ?thesis using a(2) es requests_credential_events by blast
qed

lemma toggle_each_exhausted:
  assumes "auth_header w = None" and "\<forall>l \<in> set (all_lines (stdin w)). strip l = []"
    and "tail (stdin w) = Eof"
  shows "\<exists>w'. toggle_each a n b g (x # xs) w = Some (Raise StopIteration, w') \<and>
              requests (since w w') = []"
proof -
  let ?w1 = "emit (Print [Text (announce a), Repr x]) w"
  have "auth_header ?w1 = None" "\<forall>l \<in> set (all_lines (stdin ?w1)). strip l = []"
    "tail (stdin ?w1) = Eof"
    using assms by (simp_all add: emit_def)
  from get_auth_header_exhausted [OF this]
  obtain w2 es where g: "get_auth_header ?w1 = (Raise StopIteration, w2)"
    "trace w2 = trace ?w1 @ es" "requests es = []" by blast
  have "toggle a b g x w = Inr (Raise StopIteration, w2)"
    using g(1) by (simp add: toggle_def)
  then have "toggle_each a n b g (x # xs) w = Some (Raise StopIteration, w2)"
    unfolding toggle_each_Cons by simp
  moreover have "requests (since w w2) = []"
    using g(2,3) by (simp add: since_def emit_def requests_append)
  ultimately show ?thesis by blast
qed


lemma since_self [simp]: "since w w = []"
  by (simp add: since_def)

lemma test_extensions_exhausted:
  assumes "auth_header w = None" and "\<forall>l \<in> set (all_lines (stdin w)). strip l = []"
    and "tail (stdin w) = Eof"
  shows "\<exists>out w'. test_extensions n b g plan w = Some (out, w') \<and>
           requests (since w w') = [] \<and>
           (concat plan \<noteq> [] \<longrightarrow> out = Raise StopIteration) \<and>
           (concat plan = [] \<longrightarrow> out = Return ())"
proof (induction plan)
  case Nil
  show ?case by simp
next
  case (Cons xs plan)
  show ?case
  proof (cases xs)
    case Nil
    then have "test_extensions n b g (xs # plan) w = test_extensions n b g plan w"
      by simp
    then show ?thesis using Cons.IH Nil by simp
  next
    case (Cons x xs')
    from toggle_each_exhausted [OF assms, of Enable n b g x xs']
    obtain w' where w': "toggle_each Enable n b g (x # xs') w = Some (Raise StopIteration, w')"
      "requests (since w w') = []" by blast
    have "test_extensions n b g (xs # plan) w = Some (Raise StopIteration, w')"
      unfolding test_extensions_Cons Cons w'(1) by simp
    then show ?thesis using w'(2) Cons by simp
  qed
qed

text \<open>
  C7. With no header yet, and a standard input that ends with no line but blank ones
  left, \<open>_get_auth_header\<close> raises \<open>StopIteration\<close> and sets no header. A run of
  \<open>test_extensions\<close> then sends no request: it ends with \<open>StopIteration\<close>, exit status 1,
  at its first call of \<open>_get_auth_header\<close>, or at once when the plan names no extension.
\<close>

theorem eof_before_credential:
  assumes "auth_header w = None" and "\<forall>l \<in> set (all_lines (stdin w)). strip l = []"
    and "tail (stdin w) = Eof"
  shows "fst (get_auth_header w) = Raise StopIteration \<and>
         auth_header (snd (get_auth_header w)) = None \<and>
         (\<exists>out w'. test_extensions n b g plan w = Some (out, w') \<and>
            requests (since w w') = [] \<and>
            (concat plan \<noteq> [] \<longrightarrow> out = Raise StopIteration \<and> exit_status out = Some 1) \<and>
            (concat plan = [] \<longrightarrow> out = Return ()))"
proof -
  from get_auth_header_exhausted [OF assms]
  have "fst (get_auth_header w) = Raise StopIteration \<and>
        auth_header (snd (get_auth_header w)) = None" by auto
  moreover from test_extensions_exhausted [OF assms, of n b g plan]
  have "\<exists>out w'. test_extensions n b g plan w = Some (out, w') \<and>
            requests (since w w') = [] \<and>
            (concat plan \<noteq> [] \<longrightarrow> out = Raise StopIteration \<and> exit_status out = Some 1) \<and>
            (concat plan = [] \<longrightarrow> out = Return ())" by auto
  ultimately show ?thesis by blast
qed

theorem eof_before_credential_witness:
  "auth_header c7_world = None \<and> tail (stdin c7_world) = Eof \<and>
   fst (get_auth_header c7_world) = Raise StopIteration \<and>
   (\<exists>w'. test_extensions 1 ''https://api.example'' ''guid'' [[''pg_trgm'', ''hstore'']] c7_world =
            Some (Raise StopIteration, w') \<and>
          requests (since c7_world w') = [])"
proof -
  have a: "auth_header c7_world = None" "\<forall>l \<in> set (all_lines (stdin c7_world)). strip l = []"
    "tail (stdin c7_world) = Eof"
    by (simp_all add: c7_world_def all_lines_def)
  show ?thesis
    using eof_before_credential [OF a, of 1 "''https://api.example''" "''guid''"
        "[[''pg_trgm'', ''hstore'']]"] a(1,3)
    by auto
qed



lemma checked_append: "checked f (es @ es') = checked (checked f es) es'"
  by (induction f es rule: checked.induct) auto

lemma fresh_append:
  "fresh c f (es @ es') \<longleftrightarrow>
     fresh c f es \<and> fresh (current_header c es) (checked f es) es'"
  by (induction c f es rule: fresh.induct) auto

lemma fresh_credential_events:
  "\<forall>e \<in> set es. credential_event e \<Longrightarrow> fresh c f es"
  by (induction c f es rule: fresh.induct) auto

lemma checked_credential_events:
  "\<forall>e \<in> set es. credential_event e \<Longrightarrow>
     checked f es \<longleftrightarrow> f \<or> lines_read es \<noteq> [] \<or> (\<exists>r. Select r \<in> set es)"
  by (induction f es rule: checked.induct) auto

lemma fresh_so_far_quiet:
  assumes "fresh_so_far w0 w" and "trace w' = trace w @ [e]" and "auth_header w' = auth_header w"
    and "\<And>rq rs. e \<noteq> Http rq rs" and "\<And>l b. e \<noteq> Read l b"
  shows "fresh_so_far w0 w'"
proof -
  from assms(1) obtain es where es: "trace w = trace w0 @ es"
    "fresh (auth_header w0) False es" "auth_header w = current_header (auth_header w0) es"
    unfolding fresh_so_far_def by blast
  have "fresh c f [e]" "current_header c [e] = c" for c f
    using assms(4,5) by (cases e; simp)+
  then have "trace w' = trace w0 @ (es @ [e]) \<and> fresh (auth_header w0) False (es @ [e]) \<and>
        auth_header w' = current_header (auth_header w0) (es @ [e])"
    using es assms(2,3) by (simp add: fresh_append current_header_append)
  then show ?thesis unfolding fresh_so_far_def by blast
qed

lemma fresh_so_far_get_auth_header:
  assumes "fresh_so_far w0 w"
  shows "fresh_so_far w0 (snd (get_auth_header w))"
proof -
  from assms obtain es where es: "trace w = trace w0 @ es"
    "fresh (auth_header w0) False es" "auth_header w = current_header (auth_header w0) es"
    unfolding fresh_so_far_def by blast
  obtain es' where es': "trace (snd (get_auth_header w)) = trace w @ es'"
    "\<forall>e \<in> set es'. credential_event e"
    "auth_header (snd (get_auth_header w)) = current_header (auth_header w) es'"
    using get_auth_header_frame [of w] by blast
  have "trace (snd (get_auth_header w)) = trace w0 @ (es @ es') \<and>
        fresh (auth_header w0) False (es @ es') \<and>
        auth_header (snd (get_auth_header w)) = current_header (auth_header w0) (es @ es')"
    using es es' by (simp add: fresh_append current_header_append fresh_credential_events)
  then show ?thesis unfolding fresh_so_far_def by blast
qed

lemma fresh_so_far_send:
  assumes "fresh_so_far w0 w" and "get_auth_header w = (Return h, w2)" and "headers rq = h"
  shows "fresh_so_far w0 (snd (send rq w2))"
proof -
  from assms(1) obtain es where es: "trace w = trace w0 @ es"
    "fresh (auth_header w0) False es" "auth_header w = current_header (auth_header w0) es"
    unfolding fresh_so_far_def by blast
  obtain es' where es': "trace w2 = trace w @ es'"
    "\<forall>e \<in> set es'. credential_event e"
    "auth_header w2 = current_header (auth_header w) es'"
    "auth_header w2 = Some h" "lines_read es' \<noteq> [] \<or> Select False \<in> set es'"
    using get_auth_header_frame [of w] assms(2) by auto
  have c: "checked (checked False es) es'"
    using es'(2,5) by (auto simp: checked_credential_events)
  let ?e = "Http rq (server w2 0)"
  have "trace (snd (send rq w2)) = trace w0 @ (es @ es' @ [?e]) \<and>
        fresh (auth_header w0) False (es @ es' @ [?e]) \<and>
        auth_header (snd (send rq w2)) = current_header (auth_header w0) (es @ es' @ [?e])"
    using es es' c assms(3)
    by (simp add: send_eq fresh_append current_header_append checked_append
          fresh_credential_events)
  then show ?thesis unfolding fresh_so_far_def by blast
qed

lemma fresh_so_far_steps: "steps_keep (fresh_so_far w0) (fresh_so_far w0)"
proof (rule steps_keepI)
  fix w fs assume "fresh_so_far w0 w"
  then show "fresh_so_far w0 (emit (Print fs) w)"
    by (rule fresh_so_far_quiet [where e = "Print fs"]) (simp_all add: emit_def)
next
  fix w assume "fresh_so_far w0 w"
  then show "fresh_so_far w0 ((emit (Sleep 10) w)\<lparr>stdin := elapse (stdin w)\<rparr>)"
    by (rule fresh_so_far_quiet [where e = "Sleep 10"]) (simp_all add: emit_def)
next
  fix w assume "fresh_so_far w0 w"
  then show "fresh_so_far w0 (snd (get_auth_header w))" by (rule fresh_so_far_get_auth_header)
next
  fix w h w2 and rq :: request
  assume "fresh_so_far w0 w" "get_auth_header w = (Return h, w2)" "headers rq = h"
  then show "fresh_so_far w0 (snd (send rq w2))" by (rule fresh_so_far_send)
qed

text \<open>
  C8. In a run of \<open>test_extensions\<close>, every request (each \<open>PATCH\<close> that enables or
  disables, each \<open>GET\<close> that polls) is sent right after a call of \<open>_get_auth_header\<close>
  and carries the header in force after that call: the stripped form of the last
  non-blank line read from standard input so far, or the header the run started with when
  no such line was read. A token that arrived before a request is in that request.
\<close>

theorem every_request_fresh_header:
  assumes "test_extensions n b g plan w = Some (out, w')"
  shows "fresh (auth_header w) False (since w w')"
proof -
  have "fresh_so_far w w" by (simp add: fresh_so_far_def)
  from test_extensions_invariant [OF fresh_so_far_steps assms this]
  show ?thesis by (auto simp: fresh_so_far_def)
qed

lemmas run_eval =
  get_auth_header_def readable_def acquire.simps next_line_def emit_def send_def elapse_def
  Let_def toggle_request_def is_error_status_def accepted_response_def since_def
  last_operation_def instance_path_def toggle_body_def

theorem every_request_fresh_header_witness:
  "\<exists>w'. test_extensions 1 ''https://api.example'' ''guid'' [[''pg_trgm'']] c8_world =
            Some (Raise ConnectionError, w') \<and>
        fresh (auth_header c8_world) False (since c8_world w') \<and>
        map headers (requests (since c8_world w')) =
          [[(''Authorization'', ''bearer t0'')], [(''Authorization'', ''bearer t1'')]]"
proof -
  have "\<exists>w'. test_extensions 1 ''https://api.example'' ''guid'' [[''pg_trgm'']] c8_world =
            Some (Raise ConnectionError, w') \<and>
        map headers (requests (since c8_world w')) =
          [[(''Authorization'', ''bearer t0'')], [(''Authorization'', ''bearer t1'')]]"
    by (simp add: c8_world_def run_eval)
  then obtain w' where w':
    "test_extensions 1 ''https://api.example'' ''guid'' [[''pg_trgm'']] c8_world =
       Some (Raise ConnectionError, w') \<and>
     map headers (requests (since c8_world w')) =
       [[(''Authorization'', ''bearer t0'')], [(''Authorization'', ''bearer t1'')]]" ..
  note f = every_request_fresh_header [OF conjunct1 [OF w']]
  show ?thesis
    by (rule exI [of _ w'], intro conjI, rule conjunct1 [OF w'], rule f, rule conjunct2 [OF w'])
qed














section \<open>The order of the requests\<close>















end
